theory Spec2Isabelle
  imports Main
begin

section \<open>The pubsub value store of \<open>pubsub.go\<close>\<close>

subsection \<open>Values, errors and collaborators\<close>

text \<open>
  A record value is a Go byte slice and a key is a Go string; both are sequences of
  bytes, compared with \<open>bytes.Equal\<close> and \<open>==\<close>, that is by content.
\<close>

type_synonym bytes = "char list"

text \<open>
  The datastore key built by \<open>dshelp.NewKeyFromBinary([]byte(key))\<close>. The helper is an
  injective encoding of the bytes, so the constructor itself stands for it.
\<close>

datatype Key = NewKeyFromBinary bytes

text \<open>
  A Go \<open>error\<close> is a value of an open interface, and every collaborator may return any
  error value. Two values matter to the code by identity: the sentinel \<open>ds.ErrNotFound\<close>,
  which \<open>getLocal\<close> compares against, and \<open>routing.ErrNotFound\<close>, which it returns. Any
  other error is named by its message.
\<close>

datatype error = ds_ErrNotFound | routing_ErrNotFound | Err string

text \<open>
  A Go call either returns, panics (a nil dereference), dies with a fatal runtime error
  (unlocking an unlocked mutex cannot be recovered), or blocks forever.
\<close>

datatype 'a outcome = Returns 'a | Panics string | Fatal string | Blocks

text \<open>
  \<open>ds.Datastore\<close> is an interface: an implementation state together with its \<open>Get\<close> and
  \<open>Put\<close> methods.
\<close>

record 'd Datastore =
  impl :: 'd
  Get_method :: "'d \<Rightarrow> Key \<Rightarrow> error + bytes"
  Put_method :: "'d \<Rightarrow> Key \<Rightarrow> bytes \<Rightarrow> error option \<times> 'd"

definition ds_Get :: "'d Datastore \<Rightarrow> Key \<Rightarrow> error + bytes" where
  "ds_Get d k = Get_method d (impl d) k"

definition ds_Put :: "'d Datastore \<Rightarrow> Key \<Rightarrow> bytes \<Rightarrow> error option \<times> 'd Datastore" where
  "ds_Put d k v = (case Put_method d (impl d) k v of (e, s) \<Rightarrow> (e, d\<lparr>impl := s\<rparr>))"

text \<open>
  \<open>dssync.MutexWrap(ds.NewMapDatastore())\<close>: the in-memory datastore of go-datastore, a
  Go map from keys to values. \<open>Get\<close> answers \<open>ErrNotFound\<close> for a key that is not in the
  map and has no other error; \<open>Put\<close> stores the value and returns nil. The mutex wrapper
  makes each call atomic and changes no result.
\<close>

definition MapDatastore_Get :: "(Key \<rightharpoonup> bytes) \<Rightarrow> Key \<Rightarrow> error + bytes" where
  "MapDatastore_Get m k = (case m k of None \<Rightarrow> Inl ds_ErrNotFound | Some v \<Rightarrow> Inr v)"

definition MapDatastore_Put ::
  "(Key \<rightharpoonup> bytes) \<Rightarrow> Key \<Rightarrow> bytes \<Rightarrow> error option \<times> (Key \<rightharpoonup> bytes)" where
  "MapDatastore_Put m k v = (None, m(k \<mapsto> v))"

definition MapDatastore :: "(Key \<rightharpoonup> bytes) \<Rightarrow> (Key \<rightharpoonup> bytes) Datastore" where
  "MapDatastore m =
     \<lparr>impl = m, Get_method = MapDatastore_Get, Put_method = MapDatastore_Put\<rparr>"

definition NewMapDatastore :: "(Key \<rightharpoonup> bytes) Datastore" where
  "NewMapDatastore = MapDatastore Map.empty"

text \<open>
  \<open>record.Validator\<close>: \<open>Validate\<close> returns nil (\<open>None\<close>) or its rejection; \<open>Select\<close>
  returns the index of the preferred value, or an error.
\<close>

record Validator =
  Validate :: "string \<Rightarrow> bytes \<Rightarrow> error option"
  Select :: "string \<Rightarrow> bytes list \<Rightarrow> error + int"

text \<open>A \<open>*floodsub.Subscription\<close> is a handle; the nil pointer is \<open>None\<close>.\<close>

type_synonym Subscription = nat

text \<open>
  A context is the background context or a child made by \<open>context.WithCancel\<close>; the
  number names the child's cancel function.
\<close>

datatype Context = Background | WithCancel nat Context

subsection \<open>The store\<close>

text \<open>
  A watch group: \<open>closing\<close> is a channel that is only ever closed, so it is the flag
  "has been closed"; \<open>listeners\<close> maps a channel (its address) to the context registered
  with it.
\<close>

record watchGroup =
  closing :: bool
  listeners :: "(nat \<times> Context) list"

text \<open>
  \<open>PubsubValueStore\<close>. \<open>mx\<close> is the mutex guarding \<open>subs\<close>, \<open>True\<close> when locked. A key
  of \<open>subs\<close> that is present with a nil subscription is bootstrapped but not subscribed.
  \<open>watching\<close> holds pointers to watch groups: addresses into the heap of groups.
  The host, the content routing and the pubsub handle are opaque to this file.
\<close>

record 'd PubsubValueStore =
  ctx :: Context
  ds :: "'d Datastore"
  host :: nat
  cr :: nat
  ps :: nat
  mx :: bool
  subs :: "string \<rightharpoonup> Subscription option"
  watching :: "string \<rightharpoonup> nat"
  Validator :: Validator

definition NewPubsubValueStore ::
  "Context \<Rightarrow> nat \<Rightarrow> nat \<Rightarrow> nat \<Rightarrow> Validator \<Rightarrow> (Key \<rightharpoonup> bytes) PubsubValueStore" where
  "NewPubsubValueStore c h r s validator =
     \<lparr>ctx = c, ds = NewMapDatastore, host = h, cr = r, ps = s, mx = False,
      subs = Map.empty, watching = Map.empty, Validator = validator\<rparr>"

subsection \<open>The local cache and the conflict resolver\<close>

definition getLocal :: "('d, 'z) PubsubValueStore_scheme \<Rightarrow> string \<Rightarrow> error + bytes" where
  "getLocal p key =
     (case ds_Get (ds p) (NewKeyFromBinary key) of
        Inl err \<Rightarrow>
          Inl (if err = ds_ErrNotFound then routing_ErrNotFound else err)
      | Inr val \<Rightarrow>
          (case Validate (Validator p) key val of
             Some err \<Rightarrow> Inl err
           | None \<Rightarrow> Inr val))"

definition isBetter :: "('d, 'z) PubsubValueStore_scheme \<Rightarrow> string \<Rightarrow> bytes \<Rightarrow> bool" where
  "isBetter p key val =
     (if Validate (Validator p) key val \<noteq> None then False
      else case getLocal p key of
             Inl err \<Rightarrow> True
           | Inr old \<Rightarrow>
               if old = val then True
               else (case Select (Validator p) key [val, old] of
                       Inl err \<Rightarrow> False
                     | Inr i \<Rightarrow> i = 0))"

subsection \<open>The running process: channels, goroutines and calls to collaborators\<close>

text \<open>
  A Go channel of byte slices: the values buffered, the capacity given to \<open>make\<close>, and
  whether \<open>close\<close> has been called.
\<close>

record chan =
  buf :: "bytes list"
  cap :: nat
  isClosed :: bool

definition make_chan :: "nat \<Rightarrow> chan" where
  "make_chan n = \<lparr>buf = [], cap = n, isClosed = False\<rparr>"

text \<open>
  What the store asks of its collaborators and which goroutines it starts, in the order
  it happens: the calls of \<open>bootstrapPubsub\<close> (line 80) and \<open>go bootstrapPubsub\<close>
  (line 150), \<open>ps.Publish\<close>, \<open>ps.RegisterTopicValidator\<close>, \<open>ps.Subscribe\<close> with its answer, \<open>sub.Cancel\<close>
  and \<open>go p.handleSubscription(sub, key, cancel)\<close>.
\<close>

datatype effect =
    Call_bootstrapPubsub Context string
  | Go_bootstrapPubsub Context string
  | Call_Publish string bytes
  | Call_RegisterTopicValidator string
  | Call_Subscribe string "error + Subscription"
  | Call_SubCancel Subscription
  | Go_handleSubscription Subscription string nat

text \<open>
  The goroutine started by \<open>watchGroup.add\<close>: the group, \<open>outCh\<close>, \<open>proxy\<close> and the
  context it closes over, and where it stands: started but not yet run, in its loop
  (with the cancel function of its own context), or returned.
\<close>

datatype relay_pc = Spawned | Running nat | Exited

record relay =
  r_wg :: nat
  r_outCh :: nat
  r_proxy :: nat
  r_ctx :: Context
  r_pc :: relay_pc

text \<open>
  The process around the store: the heap of watch groups and of channels, the goroutines
  of \<open>add\<close>, the cancel functions that have been called, the next unused address, and
  the trace of effects.
\<close>

record 'd process = "'d PubsubValueStore" +
  groups :: "nat \<rightharpoonup> watchGroup"
  chans :: "nat \<rightharpoonup> chan"
  relays :: "relay list"
  cancelled :: "nat list"
  fresh :: nat
  trace :: "effect list"

definition start :: "'d PubsubValueStore \<Rightarrow> 'd process" where
  "start p =
     \<lparr>ctx = ctx p, ds = ds p, host = host p, cr = cr p, ps = ps p, mx = mx p,
      subs = subs p, watching = watching p, Validator = Validator p,
      groups = Map.empty, chans = Map.empty, relays = [], cancelled = [],
      fresh = 0, trace = []\<rparr>"

fun andThen :: "'a outcome \<Rightarrow> ('a \<Rightarrow> 'b outcome) \<Rightarrow> 'b outcome" where
  "andThen (Returns x) f = f x"
| "andThen (Panics m) f = Panics m"
| "andThen (Fatal m) f = Fatal m"
| "andThen Blocks f = Blocks"

text \<open>
  \<open>sync.Mutex\<close>: \<open>Lock\<close> waits while the mutex is held; \<open>Unlock\<close> of a mutex that is not
  locked is a fatal runtime error.
\<close>

definition mx_Lock :: "'d process \<Rightarrow> 'd process outcome" where
  "mx_Lock w = (if mx w then Blocks else Returns (w\<lparr>mx := True\<rparr>))"

definition mx_Unlock :: "'d process \<Rightarrow> 'd process outcome" where
  "mx_Unlock w =
     (if mx w then Returns (w\<lparr>mx := False\<rparr>) else Fatal ''sync: unlock of unlocked mutex'')"

definition emit :: "effect \<Rightarrow> 'd process \<Rightarrow> 'd process" where
  "emit e w = w\<lparr>trace := trace w @ [e]\<rparr>"

text \<open>\<open>ctx.Done()\<close> is closed once the cancel function of the context or of an ancestor ran.\<close>

fun ctx_Done :: "nat list \<Rightarrow> Context \<Rightarrow> bool" where
  "ctx_Done cs Background = False"
| "ctx_Done cs (WithCancel c parent) = (c \<in> set cs \<or> ctx_Done cs parent)"

text \<open>
  Channel operations. A send is ready when the buffer has room, and panics on a closed
  channel; a receive is ready when a value is buffered or the channel is closed (then it
  yields the zero value and \<open>ok = false\<close>). An operation that is not ready blocks.
\<close>

definition can_send :: "'d process \<Rightarrow> nat \<Rightarrow> bool" where
  "can_send w c =
     (case chans w c of None \<Rightarrow> False
      | Some ch \<Rightarrow> isClosed ch \<or> length (buf ch) < cap ch)"

definition send :: "'d process \<Rightarrow> nat \<Rightarrow> bytes \<Rightarrow> 'd process outcome" where
  "send w c v =
     (case chans w c of None \<Rightarrow> Blocks
      | Some ch \<Rightarrow>
          if isClosed ch then Panics ''send on closed channel''
          else if length (buf ch) < cap ch
          then Returns (w\<lparr>chans := (chans w)(c \<mapsto> ch\<lparr>buf := buf ch @ [v]\<rparr>)\<rparr>)
          else Blocks)"

definition can_recv :: "'d process \<Rightarrow> nat \<Rightarrow> bool" where
  "can_recv w c =
     (case chans w c of None \<Rightarrow> False | Some ch \<Rightarrow> buf ch \<noteq> [] \<or> isClosed ch)"

definition recv :: "'d process \<Rightarrow> nat \<Rightarrow> ((bytes \<times> bool) \<times> 'd process) outcome" where
  "recv w c =
     (case chans w c of None \<Rightarrow> Blocks
      | Some ch \<Rightarrow>
          (case buf ch of
             v # vs \<Rightarrow> Returns ((v, True), w\<lparr>chans := (chans w)(c \<mapsto> ch\<lparr>buf := vs\<rparr>)\<rparr>)
           | [] \<Rightarrow> if isClosed ch then Returns (([], False), w) else Blocks))"

definition close :: "'d process \<Rightarrow> nat \<Rightarrow> 'd process outcome" where
  "close w c =
     (case chans w c of None \<Rightarrow> Panics ''close of nil channel''
      | Some ch \<Rightarrow>
          if isClosed ch then Panics ''close of closed channel''
          else Returns (w\<lparr>chans := (chans w)(c \<mapsto> ch\<lparr>isClosed := True\<rparr>)\<rparr>))"

text \<open>
  \<open>Subscription.Cancel\<close> of floodsub sends the subscription on its own \<open>cancelCh\<close> field,
  so on the nil pointer it is a nil dereference.
\<close>

definition sub_Cancel :: "Subscription option \<Rightarrow> 'd process \<Rightarrow> 'd process outcome" where
  "sub_Cancel sub w =
     (case sub of
        None \<Rightarrow> Panics ''invalid memory address or nil pointer dereference''
      | Some s \<Rightarrow> Returns (emit (Call_SubCancel s) w))"

subsection \<open>PutValue and Subscribe\<close>

text \<open>
  \<open>bootstrapPubsub\<close> talks to the content routing and the host only and leaves the store
  as it is; a call of it is an entry of the trace.
\<close>

text \<open>
  The collaborator's answer is an argument: \<open>published\<close> is what \<open>p.ps.Publish(key, value)\<close>
  returns.
\<close>

definition PutValue ::
  "'d process \<Rightarrow> string \<Rightarrow> bytes \<Rightarrow> error option \<Rightarrow> (error option \<times> 'd process) outcome" where
  "PutValue w key val published =
     andThen (mx_Lock w) (\<lambda>w.
       let bootstraped = (subs w key \<noteq> None) in
       andThen
         (if \<not> bootstraped
          then andThen (mx_Unlock (w\<lparr>subs := (subs w)(key \<mapsto> None)\<rparr>)) (\<lambda>w.
                 Returns (emit (Call_bootstrapPubsub (ctx w) key) w))
          else mx_Unlock w)
         (\<lambda>w. Returns (published, emit (Call_Publish key val) w)))"

text \<open>
  \<open>Subscribe\<close> in its three stretches. Lines 110 to 117: read \<open>p.subs[key]\<close> under the
  mutex (a missing key reads as nil).
\<close>

definition Subscribe_check :: "'d process \<Rightarrow> string \<Rightarrow> (Subscription option \<times> 'd process) outcome" where
  "Subscribe_check w key =
     andThen (mx_Lock w) (\<lambda>w.
       let sub = (case subs w key of None \<Rightarrow> None | Some s \<Rightarrow> s) in
       andThen (mx_Unlock w) (\<lambda>w. Returns (sub, w)))"

text \<open>
  Lines 123 to 131: register the topic validator and subscribe; \<open>subscribed\<close> is what
  \<open>p.ps.Subscribe(key)\<close> returns. On an error the code unlocks \<open>p.mx\<close> and returns the
  error.
\<close>

definition Subscribe_connect ::
  "'d process \<Rightarrow> string \<Rightarrow> error + Subscription \<Rightarrow> ((error + Subscription) \<times> 'd process) outcome" where
  "Subscribe_connect w key subscribed =
     (let w = emit (Call_Subscribe key subscribed) (emit (Call_RegisterTopicValidator key) w) in
      case subscribed of
        Inl err \<Rightarrow> andThen (mx_Unlock w) (\<lambda>w. Returns (Inl err, w))
      | Inr sub \<Rightarrow> Returns (Inr sub, w))"

text \<open>
  Lines 133 to 152: under the mutex, give way to a subscription that is already there,
  or install this one, start its goroutine, and bootstrap if the key was absent.
\<close>

definition Subscribe_install :: "'d process \<Rightarrow> string \<Rightarrow> Subscription \<Rightarrow> 'd process outcome" where
  "Subscribe_install w key sub =
     andThen (mx_Lock w) (\<lambda>w.
       let existingSub = (case subs w key of None \<Rightarrow> None | Some s \<Rightarrow> s);
           bootstraped = (subs w key \<noteq> None)
       in
       if existingSub \<noteq> None
       then andThen (mx_Unlock w) (\<lambda>w. sub_Cancel (Some sub) w)
       else
         let w = w\<lparr>subs := (subs w)(key \<mapsto> Some sub)\<rparr>;
             cancel = fresh w;
             w = emit (Go_handleSubscription sub key cancel) (w\<lparr>fresh := cancel + 1\<rparr>)
         in
         andThen (mx_Unlock w) (\<lambda>w.
           Returns (if \<not> bootstraped
                    then emit (Go_bootstrapPubsub (WithCancel cancel (ctx w)) key) w
                    else w)))"

definition Subscribe ::
  "'d process \<Rightarrow> string \<Rightarrow> error + Subscription \<Rightarrow> (error option \<times> 'd process) outcome" where
  "Subscribe w key subscribed =
     andThen (Subscribe_check w key) (\<lambda>(sub, w).
       if sub \<noteq> None then Returns (None, w)
       else
         andThen (Subscribe_connect w key subscribed) (\<lambda>(res, w).
           case res of
             Inl err \<Rightarrow> Returns (Some err, w)
           | Inr sub \<Rightarrow> andThen (Subscribe_install w key sub) (\<lambda>w. Returns (None, w))))"

definition GetValue ::
  "'d process \<Rightarrow> string \<Rightarrow> error + Subscription \<Rightarrow> ((error + bytes) \<times> 'd process) outcome" where
  "GetValue w key subscribed =
     andThen (Subscribe w key subscribed) (\<lambda>(err, w).
       case err of
         Some e \<Rightarrow> Returns (Inl e, w)
       | None \<Rightarrow> Returns (getLocal w key, w))"

text \<open>The keys of \<open>p.subs\<close>; Go ranges over the map in no fixed order.\<close>

definition GetSubscriptions :: "'d process \<Rightarrow> (string set \<times> 'd process) outcome" where
  "GetSubscriptions w =
     andThen (mx_Lock w) (\<lambda>w.
       let res = dom (subs w) in
       andThen (mx_Unlock w) (\<lambda>w. Returns (res, w)))"

subsection \<open>Watch groups\<close>

text \<open>
  The read-write locks \<open>watchLk\<close> and \<open>lk\<close> are not part of the state: every function
  below runs as one step, which is what the code between a \<open>Lock\<close> and its \<open>Unlock\<close> is
  to the other holders of the lock. The goroutine of \<open>add\<close> writes \<open>wg.listeners\<close> without
  taking a lock, so its steps are steps of their own.
\<close>

text \<open>
  \<open>watchGroup.add\<close> makes the channel \<open>proxy\<close> and starts a goroutine; nothing else
  happens before it returns.
\<close>

definition add :: "'d process \<Rightarrow> nat \<Rightarrow> Context \<Rightarrow> nat \<Rightarrow> 'd process" where
  "add w g cx outCh =
     (let proxy = fresh w in
      w\<lparr>fresh := proxy + 1,
        chans := (chans w)(proxy \<mapsto> make_chan 1),
        relays := relays w @
          [\<lparr>r_wg = g, r_outCh = outCh, r_proxy = proxy, r_ctx = cx, r_pc = Spawned\<rparr>]\<rparr>)"

text \<open>Writing and deleting a key of the map \<open>wg.listeners\<close>.\<close>

definition listeners_put :: "'d process \<Rightarrow> nat \<Rightarrow> nat \<Rightarrow> Context \<Rightarrow> 'd process" where
  "listeners_put w g c cx =
     (case groups w g of None \<Rightarrow> w
      | Some wg \<Rightarrow>
          w\<lparr>groups := (groups w)(g \<mapsto>
               wg\<lparr>listeners := filter (\<lambda>e. fst e \<noteq> c) (listeners wg) @ [(c, cx)]\<rparr>)\<rparr>)"

definition listeners_delete :: "'d process \<Rightarrow> nat \<Rightarrow> nat \<Rightarrow> 'd process" where
  "listeners_delete w g c =
     (case groups w g of None \<Rightarrow> w
      | Some wg \<Rightarrow>
          w\<lparr>groups := (groups w)(g \<mapsto>
               wg\<lparr>listeners := filter (\<lambda>e. fst e \<noteq> c) (listeners wg)\<rparr>)\<rparr>)"

definition closing_closed :: "'d process \<Rightarrow> nat \<Rightarrow> bool" where
  "closing_closed w g = (case groups w g of None \<Rightarrow> False | Some wg \<Rightarrow> closing wg)"

definition set_relay_pc :: "'d process \<Rightarrow> nat \<Rightarrow> relay_pc \<Rightarrow> 'd process" where
  "set_relay_pc w i pc = w\<lparr>relays := (relays w)[i := (relays w ! i)\<lparr>r_pc := pc\<rparr>]\<rparr>"

text \<open>
  The deferred function of the goroutine (lines 353 to 362): cancel its context, delete
  \<open>outCh\<close> from the listeners, close \<open>outCh\<close>.
\<close>

definition relay_exit :: "'d process \<Rightarrow> nat \<Rightarrow> relay \<Rightarrow> nat \<Rightarrow> 'd process outcome" where
  "relay_exit w i r cancel =
     (let w = w\<lparr>cancelled := cancel # cancelled w\<rparr>;
          w = listeners_delete w (r_wg r) (r_outCh r)
      in andThen (close w (r_outCh r)) (\<lambda>w. Returns (set_relay_pc w i Exited)))"

text \<open>
  One step of goroutine \<open>i\<close> of \<open>add\<close>. Its first step derives its context and writes
  \<open>wg.listeners[outCh] = ctx\<close> (lines 350 and 351). Every later step is one round of the
  \<open>select\<close> of lines 365 to 381: a value from \<open>proxy\<close> is put into \<open>outCh\<close>, in the place
  of the value pending there if there is one; a closed \<open>proxy\<close>, a closed group or a
  cancelled context end the goroutine. Where Go may take any ready case the cases are
  tried in the order of the source.
\<close>

definition relay_step :: "'d process \<Rightarrow> nat \<Rightarrow> 'd process outcome" where
  "relay_step w i =
     (if length (relays w) \<le> i then Returns w
      else
        let r = relays w ! i in
        case r_pc r of
          Spawned \<Rightarrow>
            (let cancel = fresh w;
                 w = listeners_put (w\<lparr>fresh := cancel + 1\<rparr>) (r_wg r) (r_outCh r)
                       (WithCancel cancel (r_ctx r))
             in Returns (set_relay_pc w i (Running cancel)))
        | Running cancel \<Rightarrow>
            if can_recv w (r_proxy r)
            then andThen (recv w (r_proxy r)) (\<lambda>((val, ok), w).
                   if \<not> ok then relay_exit w i r cancel
                   else if can_send w (r_outCh r) then send w (r_outCh r) val
                   else andThen (recv w (r_outCh r)) (\<lambda>(old, w). send w (r_outCh r) val))
            else if closing_closed w (r_wg r) then relay_exit w i r cancel
            else if ctx_Done (cancelled w) (WithCancel cancel (r_ctx r))
            then relay_exit w i r cancel
            else Blocks
        | Exited \<Rightarrow> Returns w)"

text \<open>
  The loop of \<open>notifyWatchers\<close> over the listeners of group \<open>g\<close>, each round the \<open>select\<close>
  of lines 279 to 284: send \<open>data\<close> to the watcher, or pass on when the group is closing
  (the \<open>break\<close> leaves the \<open>select\<close> only) or the listener's context is done. With none of
  the three ready the goroutine waits in the \<open>select\<close>. Go ranges over the map in no
  fixed order; the list is walked from its head.
\<close>

fun notifyEach :: "'d process \<Rightarrow> nat \<Rightarrow> (nat \<times> Context) list \<Rightarrow> bytes \<Rightarrow> 'd process outcome" where
  "notifyEach w g [] data = Returns w"
| "notifyEach w g ((watcher, cx) # rest) data =
     (if can_send w watcher
      then (case send w watcher data of
              Returns w' \<Rightarrow> notifyEach w' g rest data
            | Panics m \<Rightarrow> Panics m
            | Fatal m \<Rightarrow> Fatal m
            | Blocks \<Rightarrow> Blocks)
      else if closing_closed w g then notifyEach w g rest data
      else if ctx_Done (cancelled w) cx then notifyEach w g rest data
      else Blocks)"

definition notifyWatchers :: "'d process \<Rightarrow> string \<Rightarrow> bytes \<Rightarrow> 'd process outcome" where
  "notifyWatchers w key data =
     (case watching w key of
        None \<Rightarrow> Returns w
      | Some g \<Rightarrow>
          (case groups w g of
             None \<Rightarrow> Panics ''invalid memory address or nil pointer dereference''
           | Some sg \<Rightarrow> notifyEach w g (listeners sg) data))"

subsection \<open>SearchValue, Cancel and the subscription goroutine\<close>

definition SearchValue ::
  "'d process \<Rightarrow> Context \<Rightarrow> string \<Rightarrow> error + Subscription \<Rightarrow> ((error + nat) \<times> 'd process) outcome" where
  "SearchValue w cx key subscribed =
     andThen (Subscribe w key subscribed) (\<lambda>(err, w).
       case err of
         Some e \<Rightarrow> Returns (Inl e, w)
       | None \<Rightarrow>
           let (wg, w) =
                 (case watching w key of
                    Some g \<Rightarrow> (g, w)
                  | None \<Rightarrow>
                      (fresh w,
                       w\<lparr>fresh := fresh w + 1,
                         groups := (groups w)(fresh w \<mapsto> \<lparr>closing = False, listeners = []\<rparr>),
                         watching := (watching w)(key \<mapsto> fresh w)\<rparr>));
               out = fresh w;
               w = w\<lparr>fresh := out + 1, chans := (chans w)(out \<mapsto> make_chan 1)\<rparr>
           in
           andThen (case getLocal w key of Inr lv \<Rightarrow> send w out lv | Inl e \<Rightarrow> Returns w)
             (\<lambda>w. Returns (Inr out, add w wg cx out)))"

text \<open>
  \<open>Cancel\<close>. A panic leaves through the deferred \<open>p.mx.Unlock()\<close> and reaches the caller.
\<close>

definition Cancel :: "'d process \<Rightarrow> string \<Rightarrow> (bool \<times> 'd process) outcome" where
  "Cancel w name =
     andThen (mx_Lock w) (\<lambda>w.
       let ok = (subs w name \<noteq> None) in
       andThen
         (case subs w name of
            None \<Rightarrow> Returns w
          | Some sub \<Rightarrow>
              andThen (sub_Cancel sub w) (\<lambda>w. Returns (w\<lparr>subs := (subs w)(name := None)\<rparr>)))
         (\<lambda>w.
            andThen
              (case watching w name of
                 None \<Rightarrow> Returns w
               | Some g \<Rightarrow>
                   (case groups w g of
                      None \<Rightarrow> Panics ''invalid memory address or nil pointer dereference''
                    | Some wg \<Rightarrow>
                        if closing wg then Panics ''close of closed channel''
                        else Returns (w\<lparr>groups := (groups w)(g \<mapsto> wg\<lparr>closing := True\<rparr>),
                                        watching := (watching w)(name := None)\<rparr>)))
              (\<lambda>w. andThen (mx_Unlock w) (\<lambda>w. Returns (ok, w)))))"

text \<open>
  The body of the loop of \<open>handleSubscription\<close> for one message (lines 259 to 265): a
  better value is written to the datastore (a failed write is only logged) and the
  watchers are notified.
\<close>

definition handleMessage :: "'d process \<Rightarrow> string \<Rightarrow> bytes \<Rightarrow> 'd process outcome" where
  "handleMessage w key data =
     (if isBetter w key data
      then (case ds_Put (ds w) (NewKeyFromBinary key) data of
              (err, d) \<Rightarrow> notifyWatchers (w\<lparr>ds := d\<rparr>) key data)
      else Returns w)"

text \<open>
  \<open>handleSubscription\<close> on the messages that \<open>sub.Next\<close> yields before it fails: after the
  last one the deferred \<open>cancel()\<close> and \<open>sub.Cancel()\<close> run.
\<close>

fun handleSubscription ::
  "'d process \<Rightarrow> Subscription \<Rightarrow> string \<Rightarrow> nat \<Rightarrow> bytes list \<Rightarrow> 'd process outcome" where
  "handleSubscription w sub key cancel [] =
     sub_Cancel (Some sub) (w\<lparr>cancelled := cancel # cancelled w\<rparr>)"
| "handleSubscription w sub key cancel (data # msgs) =
     (case handleMessage w key data of
        Returns w' \<Rightarrow> handleSubscription w' sub key cancel msgs
      | Panics m \<Rightarrow> Panics m
      | Fatal m \<Rightarrow> Fatal m
      | Blocks \<Rightarrow> Blocks)"

subsection \<open>Sequences of calls\<close>

text \<open>
  A call of \<open>PutValue\<close> or \<open>Subscribe\<close> from outside, with the answer the pubsub
  collaborator gives if the call reaches it.
\<close>

datatype call =
    PutValue_call string bytes "error option"
  | Subscribe_call string "error + Subscription"

fun call_key :: "call \<Rightarrow> string" where
  "call_key (PutValue_call key val published) = key"
| "call_key (Subscribe_call key subscribed) = key"

fun transport_ok :: "call \<Rightarrow> bool" where
  "transport_ok (PutValue_call key val published) = True"
| "transport_ok (Subscribe_call key (Inl err)) = False"
| "transport_ok (Subscribe_call key (Inr sub)) = True"

fun do_call :: "'d process \<Rightarrow> call \<Rightarrow> 'd process outcome" where
  "do_call w (PutValue_call key val published) =
     andThen (PutValue w key val published) (\<lambda>(err, w). Returns w)"
| "do_call w (Subscribe_call key subscribed) =
     andThen (Subscribe w key subscribed) (\<lambda>(err, w). Returns w)"

text \<open>
  Calls made one after the other; a call that does not return ends the run, as the
  panic or the fatal error ends the goroutine or the process.
\<close>

fun run_calls :: "'d process \<Rightarrow> call list \<Rightarrow> 'd process outcome" where
  "run_calls w [] = Returns w"
| "run_calls w (c # cs) =
     (case do_call w c of
        Returns w' \<Rightarrow> run_calls w' cs
      | Panics m \<Rightarrow> Panics m
      | Fatal m \<Rightarrow> Fatal m
      | Blocks \<Rightarrow> Blocks)"

text \<open>How often \<open>bootstrapPubsub\<close> has been started for a key, on either path.\<close>

fun is_bootstrap :: "string \<Rightarrow> effect \<Rightarrow> bool" where
  "is_bootstrap key (Call_bootstrapPubsub c k) = (k = key)"
| "is_bootstrap key (Go_bootstrapPubsub c k) = (k = key)"
| "is_bootstrap key e = False"

definition bootstraps :: "string \<Rightarrow> 'd process \<Rightarrow> nat" where
  "bootstraps key w = length (filter (is_bootstrap key) (trace w))"

text \<open>
  The state between calls: the mutex is free, and \<open>bootstrapPubsub\<close> has been started
  once for a key with an entry in \<open>p.subs\<close> and never for a key without one.
\<close>

definition touched_once :: "string \<Rightarrow> 'd process \<Rightarrow> bool" where
  "touched_once key w =
     (\<not> mx w \<and> bootstraps key w = (if subs w key = None then 0 else 1))"

subsection \<open>Concurrent callers of Subscribe\<close>

text \<open>
  Where a call of \<open>Subscribe(key)\<close> stands: the line of \<open>pubsub.go\<close> it executes next,
  with the local variables it holds there (\<open>sub\<close>, \<open>err\<close>, \<open>bootstraped\<close>, \<open>cancel\<close>), or
  the value it has returned.
\<close>

datatype caller =
    Line110
  | Line112
  | Line113 "Subscription option"
  | Line115 "Subscription option"
  | Line123
  | Line127
  | Line129 error
  | Line130 error
  | Line133 Subscription
  | Line134 Subscription
  | Line136 Subscription
  | Line137 Subscription
  | Line141 Subscription bool
  | Line142 Subscription bool
  | Line144 Subscription bool nat
  | Line148 Subscription bool nat
  | Returned "error option"

text \<open>
  One statement of a call; \<open>subscribed\<close> is what \<open>p.ps.Subscribe(key)\<close> answers this
  caller. \<open>Lock\<close> waits (\<open>Blocks\<close>) while \<open>p.mx\<close> is held, by whomever; \<open>Unlock\<close> frees it
  whoever holds it, and is fatal when nobody does. Lines 142 and 143, the new context and
  the \<open>go\<close> statement, are one step.
\<close>

fun caller_step ::
  "'d process \<Rightarrow> string \<Rightarrow> error + Subscription \<Rightarrow> caller \<Rightarrow> (caller \<times> 'd process) outcome" where
  "caller_step w key subscribed Line110 =
     andThen (mx_Lock w) (\<lambda>w. Returns (Line112, w))"
| "caller_step w key subscribed Line112 =
     Returns (Line113 (case subs w key of None \<Rightarrow> None | Some s \<Rightarrow> s), w)"
| "caller_step w key subscribed (Line113 sub) =
     andThen (mx_Unlock w) (\<lambda>w. Returns (Line115 sub, w))"
| "caller_step w key subscribed (Line115 sub) =
     Returns (if sub \<noteq> None then Returned None else Line123, w)"
| "caller_step w key subscribed Line123 =
     Returns (Line127, emit (Call_RegisterTopicValidator key) w)"
| "caller_step w key subscribed Line127 =
     Returns (case subscribed of Inl err \<Rightarrow> Line129 err | Inr sub \<Rightarrow> Line133 sub,
              emit (Call_Subscribe key subscribed) w)"
| "caller_step w key subscribed (Line129 err) =
     andThen (mx_Unlock w) (\<lambda>w. Returns (Line130 err, w))"
| "caller_step w key subscribed (Line130 err) = Returns (Returned (Some err), w)"
| "caller_step w key subscribed (Line133 sub) =
     andThen (mx_Lock w) (\<lambda>w. Returns (Line134 sub, w))"
| "caller_step w key subscribed (Line134 sub) =
     (let existingSub = (case subs w key of None \<Rightarrow> None | Some s \<Rightarrow> s);
          bootstraped = (subs w key \<noteq> None)
      in Returns (if existingSub \<noteq> None then Line136 sub else Line141 sub bootstraped, w))"
| "caller_step w key subscribed (Line136 sub) =
     andThen (mx_Unlock w) (\<lambda>w. Returns (Line137 sub, w))"
| "caller_step w key subscribed (Line137 sub) =
     andThen (sub_Cancel (Some sub) w) (\<lambda>w. Returns (Returned None, w))"
| "caller_step w key subscribed (Line141 sub bootstraped) =
     Returns (Line142 sub bootstraped, w\<lparr>subs := (subs w)(key \<mapsto> Some sub)\<rparr>)"
| "caller_step w key subscribed (Line142 sub bootstraped) =
     (let cancel = fresh w in
      Returns (Line144 sub bootstraped cancel,
               emit (Go_handleSubscription sub key cancel) (w\<lparr>fresh := cancel + 1\<rparr>)))"
| "caller_step w key subscribed (Line144 sub bootstraped cancel) =
     andThen (mx_Unlock w) (\<lambda>w. Returns (Line148 sub bootstraped cancel, w))"
| "caller_step w key subscribed (Line148 sub bootstraped cancel) =
     Returns (Returned None,
              if \<not> bootstraped
              then emit (Go_bootstrapPubsub (WithCancel cancel (ctx w)) key) w else w)"
| "caller_step w key subscribed (Returned err) = Returns (Returned err, w)"

text \<open>
  Concurrent callers of \<open>Subscribe(key)\<close> under a schedule: each entry of the schedule
  names the caller whose next statement runs; caller \<open>i\<close> is answered with \<open>answers ! i\<close>.
  A caller that waits for the mutex stays where it is; a panic or a fatal error ends
  the run.
\<close>

fun interleave ::
  "'d process \<Rightarrow> string \<Rightarrow> (error + Subscription) list \<Rightarrow> caller list \<Rightarrow> nat list
   \<Rightarrow> (caller list \<times> 'd process) outcome" where
  "interleave w key answers cs [] = Returns (cs, w)"
| "interleave w key answers cs (i # sched) =
     (if i < length cs
      then (case caller_step w key (answers ! i) (cs ! i) of
              Returns (c, w') \<Rightarrow> interleave w' key answers (cs[i := c]) sched
            | Blocks \<Rightarrow> interleave w key answers cs sched
            | Panics m \<Rightarrow> Panics m
            | Fatal m \<Rightarrow> Fatal m)
      else interleave w key answers cs sched)"

text \<open>
  Read off the trace: the subscriptions for which \<open>go p.handleSubscription\<close> was started
  on a key, the subscriptions \<open>ps.Subscribe\<close> has made for a key, and the subscriptions
  cancelled.
\<close>

fun handler_of :: "string \<Rightarrow> effect \<Rightarrow> Subscription list" where
  "handler_of key (Go_handleSubscription sub k cancel) = (if k = key then [sub] else [])"
| "handler_of key e = []"

fun made_of :: "string \<Rightarrow> effect \<Rightarrow> Subscription list" where
  "made_of key (Call_Subscribe k (Inr sub)) = (if k = key then [sub] else [])"
| "made_of key e = []"

fun cancel_of :: "effect \<Rightarrow> Subscription list" where
  "cancel_of (Call_SubCancel sub) = [sub]"
| "cancel_of e = []"

definition handlers :: "string \<Rightarrow> 'd process \<Rightarrow> Subscription list" where
  "handlers key w = concat (map (handler_of key) (trace w))"

definition made :: "string \<Rightarrow> 'd process \<Rightarrow> Subscription list" where
  "made key w = concat (map (made_of key) (trace w))"

definition cancels :: "'d process \<Rightarrow> Subscription list" where
  "cancels w = concat (map cancel_of (trace w))"

text \<open>
  For callers that the transport does not refuse. A caller holds \<open>p.mx\<close> from after its
  \<open>Lock\<close> to its \<open>Unlock\<close>; its subscription is pending from \<open>ps.Subscribe\<close> until it is
  cancelled or written to \<open>p.subs\<close>; it is starting between the write of line 141 and
  the \<open>go\<close> of line 143.
\<close>

fun holds :: "caller \<Rightarrow> bool" where
  "holds Line112 = True"
| "holds (Line113 sub) = True"
| "holds (Line134 sub) = True"
| "holds (Line136 sub) = True"
| "holds (Line141 sub b) = True"
| "holds (Line142 sub b) = True"
| "holds (Line144 sub b cancel) = True"
| "holds c = False"

fun pending_of :: "caller \<Rightarrow> Subscription option" where
  "pending_of (Line133 sub) = Some sub"
| "pending_of (Line134 sub) = Some sub"
| "pending_of (Line136 sub) = Some sub"
| "pending_of (Line137 sub) = Some sub"
| "pending_of (Line141 sub b) = Some sub"
| "pending_of c = None"

fun starting :: "caller \<Rightarrow> bool" where
  "starting (Line142 sub b) = True"
| "starting c = False"

text \<open>The key has an active subscription.\<close>

definition active :: "'d process \<Rightarrow> string \<Rightarrow> bool" where
  "active w key = (case subs w key of Some (Some s) \<Rightarrow> True | _ \<Rightarrow> False)"

text \<open>
  What a caller answered with the subscription \<open>h\<close> knows at each line: before
  \<open>ps.Subscribe\<close> its subscription has not been made; afterwards it holds \<open>h\<close>, which is
  not the installed one while it waits, and is the installed one once it has written it;
  a non-nil \<open>sub\<close> or \<open>existingSub\<close> was read from an active entry; lines 129 and 130 are
  not reached.
\<close>

fun local_ok :: "'d process \<Rightarrow> string \<Rightarrow> Subscription \<Rightarrow> caller \<Rightarrow> bool" where
  "local_ok w key h Line110 = (h \<notin> set (made key w))"
| "local_ok w key h Line112 = (h \<notin> set (made key w))"
| "local_ok w key h (Line113 sub) = (h \<notin> set (made key w) \<and> (sub = None \<or> active w key))"
| "local_ok w key h (Line115 sub) = (h \<notin> set (made key w) \<and> (sub = None \<or> active w key))"
| "local_ok w key h Line123 = (h \<notin> set (made key w))"
| "local_ok w key h Line127 = (h \<notin> set (made key w))"
| "local_ok w key h (Line129 err) = False"
| "local_ok w key h (Line130 err) = False"
| "local_ok w key h (Line133 sub) =
     (sub = h \<and> h \<in> set (made key w) \<and> subs w key \<noteq> Some (Some h))"
| "local_ok w key h (Line134 sub) =
     (sub = h \<and> h \<in> set (made key w) \<and> subs w key \<noteq> Some (Some h))"
| "local_ok w key h (Line136 sub) =
     (sub = h \<and> h \<in> set (made key w) \<and> subs w key \<noteq> Some (Some h) \<and> active w key)"
| "local_ok w key h (Line137 sub) =
     (sub = h \<and> h \<in> set (made key w) \<and> subs w key \<noteq> Some (Some h) \<and> active w key)"
| "local_ok w key h (Line141 sub b) =
     (sub = h \<and> h \<in> set (made key w) \<and> \<not> active w key \<and> b = (subs w key \<noteq> None))"
| "local_ok w key h (Line142 sub b) =
     (sub = h \<and> h \<in> set (made key w) \<and> subs w key = Some (Some h))"
| "local_ok w key h (Line144 sub b cancel) =
     (sub = h \<and> h \<in> set (made key w) \<and> subs w key = Some (Some h))"
| "local_ok w key h (Line148 sub b cancel) =
     (sub = h \<and> h \<in> set (made key w) \<and> subs w key = Some (Some h))"
| "local_ok w key h (Returned err) = (err = None \<and> active w key)"

text \<open>
  What holds between the statements of racing callers: the mutex is held exactly when
  some caller is between its \<open>Lock\<close> and \<open>Unlock\<close>, and by one caller only; the installed
  subscription has been made, and has exactly its own goroutine once line 143 has run;
  the subscriptions cancelled are those made that are neither installed nor pending.
\<close>

definition serialized :: "string \<Rightarrow> Subscription list \<Rightarrow> 'd process \<Rightarrow> caller list \<Rightarrow> bool" where
  "serialized key hs w cs =
     (length cs = length hs \<and>
      (mx w \<longleftrightarrow> (\<exists>i < length hs. holds (cs ! i))) \<and>
      (\<forall>i < length hs. \<forall>j < length hs. holds (cs ! i) \<longrightarrow> holds (cs ! j) \<longrightarrow> i = j) \<and>
      set (made key w) \<subseteq> set hs \<and>
      (\<forall>s. subs w key = Some (Some s) \<longrightarrow> s \<in> set (made key w)) \<and>
      (\<forall>i < length hs. local_ok w key (hs ! i) (cs ! i)) \<and>
      handlers key w =
        (case subs w key of
           Some (Some s) \<Rightarrow> if (\<exists>i < length hs. starting (cs ! i)) then [] else [s]
         | _ \<Rightarrow> []) \<and>
      (\<forall>h. h \<in> set (cancels w) \<longleftrightarrow>
            h \<in> set (made key w) \<and> subs w key \<noteq> Some (Some h) \<and>
            (\<forall>i < length hs. pending_of (cs ! i) \<noteq> Some h)))"

fun is_returned :: "caller \<Rightarrow> bool" where
  "is_returned (Returned err) = True"
| "is_returned c = False"

subsection \<open>A validator and stores to run the definitions on\<close>

text \<open>A selector that prefers the longer record, the earlier one on a tie.\<close>

fun preferLonger :: "string \<Rightarrow> bytes list \<Rightarrow> error + int" where
  "preferLonger key [] = Inl (Err ''no values'')"
| "preferLonger key [a] = Inr 0"
| "preferLonger key (a # b # vs) =
     (if length b \<le> length a then Inr 0
      else case preferLonger key (b # vs) of Inl e \<Rightarrow> Inl e | Inr i \<Rightarrow> Inr (i + 1))"

definition nonEmptyValidator :: Validator where
  "nonEmptyValidator =
     \<lparr>Validate = (\<lambda>key val. if val = [] then Some (Err ''empty record'') else None),
      Select = preferLonger\<rparr>"

definition storeHolding :: "string \<Rightarrow> bytes \<Rightarrow> (Key \<rightharpoonup> bytes) PubsubValueStore" where
  "storeHolding key val =
     (NewPubsubValueStore Background 0 0 0 nonEmptyValidator)
       \<lparr>ds := MapDatastore [NewKeyFromBinary key \<mapsto> val]\<rparr>"

text \<open>A datastore whose backend fails on every call.\<close>

definition failingDatastore :: "unit Datastore" where
  "failingDatastore =
     \<lparr>impl = (),
      Get_method = (\<lambda>s k. Inl (Err ''input/output error'')),
      Put_method = (\<lambda>s k v. (Some (Err ''input/output error''), s))\<rparr>"

definition failingStore :: "unit PubsubValueStore" where
  "failingStore =
     \<lparr>ctx = Background, ds = failingDatastore, host = 0, cr = 0, ps = 0, mx = False,
      subs = Map.empty, watching = Map.empty, Validator = nonEmptyValidator\<rparr>"

text \<open>
  A validator that rejects the record \<open>''expired''\<close>, and does so with the error value
  \<open>routing.ErrNotFound\<close>; and a store whose datastore holds that record.
\<close>

definition expiredValidator :: Validator where
  "expiredValidator =
     \<lparr>Validate = (\<lambda>key val. if val = ''expired'' then Some routing_ErrNotFound else None),
      Select = preferLonger\<rparr>"

definition expiredStore :: "(Key \<rightharpoonup> bytes) PubsubValueStore" where
  "expiredStore =
     (NewPubsubValueStore Background 0 0 0 expiredValidator)
       \<lparr>ds := MapDatastore [NewKeyFromBinary ''k'' \<mapsto> ''expired'']\<rparr>"

text \<open>A new store with the validator above, as a running process.\<close>

definition newProcess :: "(Key \<rightharpoonup> bytes) process" where
  "newProcess = start (NewPubsubValueStore Background 0 0 0 nonEmptyValidator)"

text \<open>
  A new process in which one caller has joined the watch group of \<open>''k''\<close> through
  \<open>SearchValue\<close> and the goroutine of \<open>add\<close> has run up to its loop: the group is at
  address 1, the caller's channel at 2, \<open>proxy\<close> at 3.
\<close>

definition listening :: "(Key \<rightharpoonup> bytes) process outcome" where
  "listening =
     andThen (SearchValue newProcess Background ''k'' (Inr 7)) (\<lambda>(res, w). relay_step w 0)"

text \<open>
  A schedule for three callers of which the first is refused by the transport: caller 0
  runs up to line 129, caller 1 up to line 141 (it holds the mutex and has read an empty
  entry), caller 0 runs lines 129 and 130, caller 2 runs up to line 141, then callers 1
  and 2 each run lines 141 to 143.
\<close>

definition strayUnlockRace :: "nat list" where
  "strayUnlockRace =
     replicate 6 0 @ replicate 8 1 @ [0, 0] @ replicate 8 2 @ [1, 1] @ [2, 2]"

section \<open>Properties\<close>

subsection \<open>What the operations compute when the mutex is free\<close>

lemma emit_fields [simp]:
  "mx (emit e w) = mx w" "subs (emit e w) = subs w" "ds (emit e w) = ds w"
  "Validator (emit e w) = Validator w" "watching (emit e w) = watching w"
  "groups (emit e w) = groups w" "chans (emit e w) = chans w" "relays (emit e w) = relays w"
  "cancelled (emit e w) = cancelled w" "fresh (emit e w) = fresh w" "ctx (emit e w) = ctx w"
  "trace (emit e w) = trace w @ [e]"
  by (simp_all add: emit_def)

lemma Subscribe_check_unlocked:
  "\<not> mx w \<Longrightarrow>
   Subscribe_check w key = Returns (case subs w key of None \<Rightarrow> None | Some s \<Rightarrow> s, w)"
  by (simp add: Subscribe_check_def mx_Lock_def mx_Unlock_def)

lemma Subscribe_connect_ok:
  "Subscribe_connect w key (Inr sub) =
     Returns (Inr sub, emit (Call_Subscribe key (Inr sub)) (emit (Call_RegisterTopicValidator key) w))"
  by (simp add: Subscribe_connect_def)

lemma Subscribe_connect_error:
  "\<not> mx w \<Longrightarrow> Subscribe_connect w key (Inl err) = Fatal ''sync: unlock of unlocked mutex''"
  by (simp add: Subscribe_connect_def mx_Unlock_def emit_def)

lemma Subscribe_install_existing:
  "\<not> mx w \<Longrightarrow> subs w key = Some (Some s) \<Longrightarrow>
   Subscribe_install w key sub = Returns (emit (Call_SubCancel sub) w)"
  by (simp add: Subscribe_install_def mx_Lock_def mx_Unlock_def sub_Cancel_def emit_def)

lemma Subscribe_install_bootstrapped:
  "\<not> mx w \<Longrightarrow> subs w key = Some None \<Longrightarrow>
   Subscribe_install w key sub =
     Returns (emit (Go_handleSubscription sub key (fresh w))
               (w\<lparr>subs := (subs w)(key \<mapsto> Some sub), fresh := fresh w + 1\<rparr>))"
  by (simp add: Subscribe_install_def mx_Lock_def mx_Unlock_def emit_def Let_def)

lemma Subscribe_install_absent:
  "\<not> mx w \<Longrightarrow> subs w key = None \<Longrightarrow>
   Subscribe_install w key sub =
     Returns (emit (Go_bootstrapPubsub (WithCancel (fresh w) (ctx w)) key)
               (emit (Go_handleSubscription sub key (fresh w))
                 (w\<lparr>subs := (subs w)(key \<mapsto> Some sub), fresh := fresh w + 1\<rparr>)))"
  by (simp add: Subscribe_install_def mx_Lock_def mx_Unlock_def emit_def Let_def)

lemma Subscribe_active:
  "\<not> mx w \<Longrightarrow> subs w key = Some (Some s) \<Longrightarrow> Subscribe w key r = Returns (None, w)"
  by (simp add: Subscribe_def Subscribe_check_unlocked)

lemma Subscribe_bootstrapped:
  "\<not> mx w \<Longrightarrow> subs w key = Some None \<Longrightarrow>
   Subscribe w key (Inr sub) =
     Returns (None,
       emit (Go_handleSubscription sub key (fresh w))
         ((emit (Call_Subscribe key (Inr sub)) (emit (Call_RegisterTopicValidator key) w))
            \<lparr>subs := (subs w)(key \<mapsto> Some sub), fresh := fresh w + 1\<rparr>))"
  by (simp add: Subscribe_def Subscribe_check_unlocked Subscribe_connect_ok
      Subscribe_install_bootstrapped)

lemma Subscribe_absent:
  "\<not> mx w \<Longrightarrow> subs w key = None \<Longrightarrow>
   Subscribe w key (Inr sub) =
     Returns (None,
       emit (Go_bootstrapPubsub (WithCancel (fresh w) (ctx w)) key)
        (emit (Go_handleSubscription sub key (fresh w))
         ((emit (Call_Subscribe key (Inr sub)) (emit (Call_RegisterTopicValidator key) w))
            \<lparr>subs := (subs w)(key \<mapsto> Some sub), fresh := fresh w + 1\<rparr>)))"
  by (simp add: Subscribe_def Subscribe_check_unlocked Subscribe_connect_ok
      Subscribe_install_absent)

lemma Subscribe_locked: "mx w \<Longrightarrow> Subscribe w key r = Blocks"
  by (simp add: Subscribe_def Subscribe_check_def mx_Lock_def)

lemma Subscribe_failed_connect:
  "\<not> mx w \<Longrightarrow> subs w key = None \<or> subs w key = Some None \<Longrightarrow>
   Subscribe w key (Inl err) = Fatal ''sync: unlock of unlocked mutex''"
  by (auto simp: Subscribe_def Subscribe_check_unlocked Subscribe_connect_error)

lemma Subscribe_keeps_cache:
  assumes "Subscribe w key r = Returns (e, w')"
  shows "ds w' = ds w \<and> Validator w' = Validator w \<and> \<not> mx w \<and> \<not> mx w'"
proof -
  have unlocked: "\<not> mx w" using assms Subscribe_locked [of w key r] by auto
  show ?thesis
  proof (cases "subs w key")
    case None
    show ?thesis
    proof (cases r)
      case (Inl err)
      then show ?thesis using assms unlocked None Subscribe_failed_connect [of w key err] by simp
    next
      case (Inr sub)
      then show ?thesis using assms unlocked None Subscribe_absent [of w key sub] by auto
    qed
  next
    case (Some s)
    show ?thesis
    proof (cases s)
      case None
      show ?thesis
      proof (cases r)
        case (Inl err)
        then show ?thesis using assms unlocked Some None Subscribe_failed_connect [of w key err] by simp
      next
        case (Inr sub)
        then show ?thesis using assms unlocked Some None Subscribe_bootstrapped [of w key sub]
          by auto
      qed
    next
      case (Some a)
      then show ?thesis using assms unlocked \<open>subs w key = Some s\<close> Subscribe_active [of w key a r]
        by auto
    qed
  qed
qed

lemma getLocal_cong:
  "ds w' = ds w \<Longrightarrow> Validator w' = Validator w \<Longrightarrow> getLocal w' key = getLocal w key"
  by (simp add: getLocal_def split: sum.splits option.splits)

lemma start_fields [simp]:
  "mx (start p) = mx p" "subs (start p) = subs p" "ds (start p) = ds p"
  "Validator (start p) = Validator p" "watching (start p) = watching p"
  "ctx (start p) = ctx p" "groups (start p) = Map.empty" "chans (start p) = Map.empty"
  "relays (start p) = []" "cancelled (start p) = []" "fresh (start p) = 0"
  "trace (start p) = []"
  by (simp_all add: start_def)

lemma NewPubsubValueStore_fields [simp]:
  "mx (NewPubsubValueStore c h r s v) = False"
  "subs (NewPubsubValueStore c h r s v) = Map.empty"
  "watching (NewPubsubValueStore c h r s v) = Map.empty"
  "ds (NewPubsubValueStore c h r s v) = NewMapDatastore"
  "Validator (NewPubsubValueStore c h r s v) = v"
  "ctx (NewPubsubValueStore c h r s v) = c"
  by (simp_all add: NewPubsubValueStore_def)

lemma MapDatastore_Get_eq [simp]:
  "ds_Get (MapDatastore m) k = (case m k of None \<Rightarrow> Inl ds_ErrNotFound | Some v \<Rightarrow> Inr v)"
  by (simp add: ds_Get_def MapDatastore_def MapDatastore_Get_def)

lemma MapDatastore_Put_eq [simp]:
  "ds_Put (MapDatastore m) k v = (None, MapDatastore (m(k \<mapsto> v)))"
  by (simp add: ds_Put_def MapDatastore_def MapDatastore_Put_def)

lemma failingDatastore_Get [simp]:
  "ds_Get failingDatastore k = Inl (Err ''input/output error'')"
  by (simp add: ds_Get_def failingDatastore_def)

lemma storeHolding_fields [simp]:
  "mx (storeHolding key val) = False"
  "subs (storeHolding key val) = Map.empty"
  "watching (storeHolding key val) = Map.empty"
  "ds (storeHolding key val) = MapDatastore [NewKeyFromBinary key \<mapsto> val]"
  "Validator (storeHolding key val) = nonEmptyValidator"
  "ctx (storeHolding key val) = Background"
  by (simp_all add: storeHolding_def)

lemma nonEmptyValidator_Validate [simp]:
  "Validate nonEmptyValidator key val = (if val = [] then Some (Err ''empty record'') else None)"
  by (simp add: nonEmptyValidator_def)

lemma nonEmptyValidator_Select [simp]:
  "Select nonEmptyValidator = preferLonger"
  by (simp add: nonEmptyValidator_def)

lemma newProcess_fields [simp]:
  "mx newProcess = False" "subs newProcess = Map.empty" "watching newProcess = Map.empty"
  "ds newProcess = NewMapDatastore" "Validator newProcess = nonEmptyValidator"
  "ctx newProcess = Background" "groups newProcess = Map.empty" "chans newProcess = Map.empty"
  "relays newProcess = []" "cancelled newProcess = []" "fresh newProcess = 0"
  "trace newProcess = []"
  by (simp_all add: newProcess_def)

lemma PutValue_absent:
  "\<not> mx w \<Longrightarrow> subs w key = None \<Longrightarrow>
   PutValue w key val published =
     Returns (published,
       emit (Call_Publish key val)
         (emit (Call_bootstrapPubsub (ctx w) key) (w\<lparr>subs := (subs w)(key \<mapsto> None)\<rparr>)))"
  by (simp add: PutValue_def mx_Lock_def mx_Unlock_def Let_def emit_def)

lemma PutValue_present:
  "\<not> mx w \<Longrightarrow> subs w key = Some s \<Longrightarrow>
   PutValue w key val published = Returns (published, emit (Call_Publish key val) w)"
  by (simp add: PutValue_def mx_Lock_def mx_Unlock_def Let_def emit_def)

subsection \<open>The conflict resolver\<close>

lemma isBetter_storage_failure:
  "Validate (Validator p) key val = None \<Longrightarrow> ds_Get (ds p) (NewKeyFromBinary key) = Inl e
   \<Longrightarrow> isBetter p key val"
  by (simp add: isBetter_def getLocal_def)

text \<open>
  C1. \<open>isBetter\<close> is false for a candidate the validator rejects. For a valid candidate it
  is true when the datastore has no entry for the key or the cached bytes fail
  validation, true when the candidate equals the cached value, and otherwise (a valid
  cached value that differs) it is true exactly when \<open>Select\<close> on \<open>[candidate, cached]\<close>
  returns index 0 without an error.
\<close>

theorem isBetter_cases:
  "(Validate (Validator p) key val \<noteq> None \<longrightarrow> \<not> isBetter p key val) \<and>
   (Validate (Validator p) key val = None \<and>
      (ds_Get (ds p) (NewKeyFromBinary key) = Inl ds_ErrNotFound \<or>
       (\<exists>old. ds_Get (ds p) (NewKeyFromBinary key) = Inr old \<and>
              Validate (Validator p) key old \<noteq> None))
      \<longrightarrow> isBetter p key val) \<and>
   (Validate (Validator p) key val = None \<and>
      ds_Get (ds p) (NewKeyFromBinary key) = Inr val \<longrightarrow> isBetter p key val) \<and>
   (\<forall>old. Validate (Validator p) key val = None \<and>
      ds_Get (ds p) (NewKeyFromBinary key) = Inr old \<and>
      Validate (Validator p) key old = None \<and> old \<noteq> val
      \<longrightarrow> isBetter p key val = (Select (Validator p) key [val, old] = Inr 0))"
  by (auto simp: isBetter_def getLocal_def split: sum.splits option.splits)

theorem isBetter_cases_witness:
  "\<not> isBetter (storeHolding ''k'' ''v1'') ''k'' [] \<and>
   isBetter (NewPubsubValueStore Background 0 0 0 nonEmptyValidator) ''k'' ''v1'' \<and>
   isBetter (storeHolding ''k'' ''v1'') ''k'' ''v1'' \<and>
   isBetter (storeHolding ''k'' ''v1'') ''k'' ''v22'' \<and>
   \<not> isBetter (storeHolding ''k'' ''v22'') ''k'' ''v1''"
  using isBetter_cases [of "storeHolding ''k'' ''v1''" "''k''" "[]"]
    isBetter_cases [of "NewPubsubValueStore Background 0 0 0 nonEmptyValidator" "''k''" "''v1''"]
    isBetter_cases [of "storeHolding ''k'' ''v1''" "''k''" "''v1''"]
    isBetter_cases [of "storeHolding ''k'' ''v1''" "''k''" "''v22''"]
    isBetter_cases [of "storeHolding ''k'' ''v22''" "''k''" "''v1''"]
  by (simp add: storeHolding_def NewPubsubValueStore_def nonEmptyValidator_def
      MapDatastore_def NewMapDatastore_def ds_Get_def MapDatastore_Get_def)

subsection \<open>The local cache\<close>

text \<open>
  C7. \<open>getLocal\<close> returns \<open>routing.ErrNotFound\<close> when the datastore reports
  \<open>ds.ErrNotFound\<close>; it returns the validator's rejection, as the validator gave it, when
  bytes are stored that fail validation; it returns any other error of the datastore as
  that error; and it returns stored bytes that pass validation. So its result is
  \<open>routing.ErrNotFound\<close> exactly when the datastore reports the key missing or a
  collaborator hands back that very value: the datastore as its error, or the validator
  as its rejection of the stored bytes. \<open>GetValue\<close> returns the outcome of \<open>getLocal\<close>
  unchanged once its \<open>Subscribe\<close> has returned nil.
\<close>

theorem getLocal_passes_errors:
  "(ds_Get (ds w) (NewKeyFromBinary key) = Inl ds_ErrNotFound
        \<longrightarrow> getLocal w key = Inl routing_ErrNotFound) \<and>
   (\<forall>val err. ds_Get (ds w) (NewKeyFromBinary key) = Inr val \<and>
        Validate (Validator w) key val = Some err
        \<longrightarrow> getLocal w key = Inl err) \<and>
   (\<forall>err. ds_Get (ds w) (NewKeyFromBinary key) = Inl err \<and> err \<noteq> ds_ErrNotFound
        \<longrightarrow> getLocal w key = Inl err) \<and>
   (\<forall>val. ds_Get (ds w) (NewKeyFromBinary key) = Inr val \<and>
        Validate (Validator w) key val = None
        \<longrightarrow> getLocal w key = Inr val) \<and>
   (getLocal w key = Inl routing_ErrNotFound
      \<longleftrightarrow> ds_Get (ds w) (NewKeyFromBinary key) = Inl ds_ErrNotFound \<or>
          ds_Get (ds w) (NewKeyFromBinary key) = Inl routing_ErrNotFound \<or>
          (\<exists>val. ds_Get (ds w) (NewKeyFromBinary key) = Inr val \<and>
                 Validate (Validator w) key val = Some routing_ErrNotFound)) \<and>
   (\<forall>w'. Subscribe w key subscribed = Returns (None, w')
        \<longrightarrow> GetValue w key subscribed = Returns (getLocal w key, w'))"
proof -
  have a: "GetValue w key subscribed = Returns (getLocal w key, w')"
    if "Subscribe w key subscribed = Returns (None, w')" for w'
    using that Subscribe_keeps_cache [OF that] getLocal_cong [of w' w key] by (simp add: GetValue_def)
  have b: "(getLocal w key = Inl routing_ErrNotFound
      \<longleftrightarrow> ds_Get (ds w) (NewKeyFromBinary key) = Inl ds_ErrNotFound \<or>
          ds_Get (ds w) (NewKeyFromBinary key) = Inl routing_ErrNotFound \<or>
          (\<exists>val. ds_Get (ds w) (NewKeyFromBinary key) = Inr val \<and>
                 Validate (Validator w) key val = Some routing_ErrNotFound))"
    by (auto simp: getLocal_def split: sum.splits option.splits if_splits)
  have c: "getLocal w key = Inl err"
    if "ds_Get (ds w) (NewKeyFromBinary key) = Inr val" "Validate (Validator w) key val = Some err"
    for val err using that by (simp add: getLocal_def)
  have d: "getLocal w key = Inl err"
    if "ds_Get (ds w) (NewKeyFromBinary key) = Inl err" "err \<noteq> ds_ErrNotFound"
    for err using that by (simp add: getLocal_def)
  have e: "getLocal w key = Inr val"
    if "ds_Get (ds w) (NewKeyFromBinary key) = Inr val" "Validate (Validator w) key val = None"
    for val using that by (simp add: getLocal_def)
  have f: "getLocal w key = Inl routing_ErrNotFound"
    if "ds_Get (ds w) (NewKeyFromBinary key) = Inl ds_ErrNotFound"
    using that by (simp add: getLocal_def)
  from a b c d e f show ?thesis by blast
qed

theorem getLocal_passes_errors_witness:
  "getLocal newProcess ''k'' = Inl routing_ErrNotFound \<and>
   getLocal (start (storeHolding ''k'' [])) ''k'' = Inl (Err ''empty record'') \<and>
   getLocal (start failingStore) ''k'' = Inl (Err ''input/output error'') \<and>
   getLocal (start (storeHolding ''k'' ''v1'')) ''k'' = Inr ''v1'' \<and>
   getLocal (start expiredStore) ''k'' = Inl routing_ErrNotFound \<and>
   (\<exists>w'. GetValue (start (storeHolding ''k'' ''v1'')) ''k'' (Inr 7) = Returns (Inr ''v1'', w'))"
proof -
  have sub: "\<exists>w'. Subscribe (start (storeHolding ''k'' ''v1'')) ''k'' (Inr 7) = Returns (None, w')"
    by (simp add: Subscribe_absent)
  have f: "ds failingStore = failingDatastore" by (simp add: failingStore_def)
  have 1: "getLocal newProcess ''k'' = Inl routing_ErrNotFound"
    using getLocal_passes_errors [of newProcess "''k''"] by (simp add: NewMapDatastore_def)
  have 2: "getLocal (start (storeHolding ''k'' [])) ''k'' = Inl (Err ''empty record'')"
    using getLocal_passes_errors [of "start (storeHolding ''k'' [])" "''k''"] by simp
  have 3: "getLocal (start failingStore) ''k'' = Inl (Err ''input/output error'')"
    using getLocal_passes_errors [of "start failingStore" "''k''"] by (simp add: f)
  have 4: "getLocal (start (storeHolding ''k'' ''v1'')) ''k'' = Inr ''v1''"
    using getLocal_passes_errors [of "start (storeHolding ''k'' ''v1'')" "''k''"] by simp
  have 5: "\<exists>w'. GetValue (start (storeHolding ''k'' ''v1'')) ''k'' (Inr 7) = Returns (Inr ''v1'', w')"
    using sub 4 getLocal_passes_errors [of "start (storeHolding ''k'' ''v1'')" "''k''" "Inr 7"]
    by metis
  have 6: "getLocal (start expiredStore) ''k'' = Inl routing_ErrNotFound"
    using getLocal_passes_errors [of "start expiredStore" "''k''"]
    by (simp add: expiredStore_def expiredValidator_def)
  from 1 2 3 4 5 6 show ?thesis by blast
qed

text \<open>
  The result \<open>routing.ErrNotFound\<close> does not tell that the datastore reported the key
  missing: with the record \<open>''expired''\<close> stored under \<open>''k''\<close> and a validator that rejects
  it with \<open>routing.ErrNotFound\<close>, the datastore returns the record and \<open>getLocal\<close> returns
  \<open>routing.ErrNotFound\<close>, a validation failure reported as not found.
\<close>

theorem getLocal_NotFound_for_stored_key:
  "getLocal (start expiredStore) ''k'' = Inl routing_ErrNotFound \<and>
   ds_Get (ds (start expiredStore)) (NewKeyFromBinary ''k'') = Inr ''expired'' \<and>
   Validate (Validator (start expiredStore)) ''k'' ''expired'' = Some routing_ErrNotFound \<and>
   \<not> (getLocal (start expiredStore) ''k'' = Inl routing_ErrNotFound
        \<longleftrightarrow> ds_Get (ds (start expiredStore)) (NewKeyFromBinary ''k'') = Inl ds_ErrNotFound)"
  by (simp add: getLocal_def expiredStore_def expiredValidator_def)

text \<open>
  C10. On a newly constructed store, whatever the arguments of the constructor,
  \<open>GetValue\<close> of any key returns \<open>routing.ErrNotFound\<close> when its \<open>Subscribe\<close> succeeds:
  the constructor installs an empty in-memory datastore, in which every key is missing.
\<close>

theorem GetValue_new_store:
  "(\<exists>w'. GetValue (start (NewPubsubValueStore c h r s validator)) key (Inr sub)
           = Returns (Inl routing_ErrNotFound, w')) \<and>
   ds (NewPubsubValueStore c h r s validator) = MapDatastore Map.empty \<and>
   ds_Get (MapDatastore Map.empty) k = Inl ds_ErrNotFound"
proof -
  let ?w = "start (NewPubsubValueStore c h r s validator)"
  have missing: "getLocal ?w key = Inl routing_ErrNotFound"
    by (simp add: getLocal_def NewMapDatastore_def)
  obtain w' where sub: "Subscribe ?w key (Inr sub) = Returns (None, w')"
    by (simp add: Subscribe_absent)
  have "getLocal w' key = getLocal ?w key"
    using Subscribe_keeps_cache [OF sub] getLocal_cong [of w' ?w key] by simp
  then have "GetValue ?w key (Inr sub) = Returns (Inl routing_ErrNotFound, w')"
    using sub missing by (simp add: GetValue_def)
  then show ?thesis by (auto simp: NewMapDatastore_def)
qed

theorem GetValue_new_store_witness:
  "\<exists>w'. GetValue newProcess ''missing'' (Inr 7) = Returns (Inl routing_ErrNotFound, w')"
  using GetValue_new_store [of Background 0 0 0 nonEmptyValidator "''missing''" 7]
  by (simp add: newProcess_def)

subsection \<open>Subscribe when the transport refuses\<close>

text \<open>
  C3. When \<open>p.ps.Subscribe\<close> fails for a key without an active subscription,
  \<open>Subscribe\<close> does not return the error: line 129 unlocks \<open>p.mx\<close>, which line 113 has
  already unlocked, and the process dies with a fatal runtime error.
\<close>

theorem Subscribe_error_fatal:
  "\<not> mx w \<Longrightarrow> subs w key = None \<or> subs w key = Some None \<Longrightarrow>
   Subscribe w key (Inl err) = Fatal ''sync: unlock of unlocked mutex''"
  by (rule Subscribe_failed_connect)

theorem Subscribe_error_fatal_witness:
  "Subscribe newProcess ''k'' (Inl (Err ''topic closed''))
     = Fatal ''sync: unlock of unlocked mutex''"
  using Subscribe_error_fatal [of newProcess "''k''" "Err ''topic closed''"]
  by simp

subsection \<open>Cancel\<close>

text \<open>
  What \<open>Cancel\<close> does for a key without an entry, and for a key with an active
  subscription and a watch group.
\<close>

lemma Cancel_absent:
  "\<not> mx w \<Longrightarrow> subs w name = None \<Longrightarrow> watching w name = None \<Longrightarrow>
   Cancel w name = Returns (False, w)"
  by (simp add: Cancel_def mx_Lock_def mx_Unlock_def Let_def)

lemma Cancel_active:
  "\<not> mx w \<Longrightarrow> subs w name = Some (Some s) \<Longrightarrow> watching w name = Some g \<Longrightarrow>
   groups w g = Some wg \<Longrightarrow> \<not> closing wg \<Longrightarrow>
   \<exists>w'. Cancel w name = Returns (True, w') \<and> subs w' name = None \<and>
        watching w' name = None \<and> closing_closed w' g \<and>
        trace w' = trace w @ [Call_SubCancel s]"
  by (simp add: Cancel_def mx_Lock_def mx_Unlock_def Let_def sub_Cancel_def
      closing_closed_def)

text \<open>
  C4. For a key whose entry is present with a nil subscription (after \<open>PutValue\<close> only),
  \<open>Cancel\<close> does not return: \<open>ok\<close> is true for the present entry, so \<open>sub.Cancel()\<close> is
  called on the nil pointer and panics.
\<close>

theorem Cancel_bootstrapping_panics:
  "\<not> mx w \<Longrightarrow> subs w name = Some None \<Longrightarrow>
   Cancel w name = Panics ''invalid memory address or nil pointer dereference''"
  by (simp add: Cancel_def mx_Lock_def sub_Cancel_def Let_def)

theorem Cancel_bootstrapping_panics_witness:
  "andThen (PutValue newProcess ''k'' ''v1'' None) (\<lambda>(err, w). Cancel w ''k'')
   = Panics ''invalid memory address or nil pointer dereference''"
  using Cancel_bootstrapping_panics
    [of "emit (Call_Publish ''k'' ''v1'')
         (emit (Call_bootstrapPubsub (ctx newProcess) ''k'')
            (newProcess\<lparr>subs := (subs newProcess)(''k'' \<mapsto> None)\<rparr>))" "''k''"]
  by (simp add: PutValue_absent)

subsection \<open>Delivering the cached value again\<close>

lemma handleSubscription_unfold:
  "handleSubscription w sub key cancel (data # msgs) =
     andThen (handleMessage w key data) (\<lambda>w. handleSubscription w sub key cancel msgs)"
  by (cases "handleMessage w key data") simp_all

lemma send_keeps_cache:
  "send w c v = Returns w' \<Longrightarrow> ds w' = ds w \<and> Validator w' = Validator w"
  by (auto simp: send_def split: option.splits if_splits)

lemma send_keeps_groups:
  "send w c v = Returns w' \<Longrightarrow> groups w' = groups w \<and> cancelled w' = cancelled w"
  by (auto simp: send_def split: option.splits if_splits)

lemma notifyEach_keeps_cache:
  "notifyEach w g ls data = Returns w' \<Longrightarrow> ds w' = ds w \<and> Validator w' = Validator w"
proof (induction ls arbitrary: w)
  case Nil
  then show ?case by simp
next
  case (Cons l ls)
  obtain watcher cx where l: "l = (watcher, cx)" by (cases l)
  show ?case
  proof (cases "can_send w watcher")
    case True
    then obtain w1 where s: "send w watcher data = Returns w1"
      and r: "notifyEach w1 g ls data = Returns w'"
      using Cons.prems l by (auto split: outcome.splits)
    show ?thesis using Cons.IH [OF r] send_keeps_cache [OF s] by simp
  next
    case False
    then have "notifyEach w g ls data = Returns w'"
      using Cons.prems l by (auto split: if_splits)
    then show ?thesis by (rule Cons.IH)
  qed
qed

lemma notifyWatchers_keeps_cache:
  "notifyWatchers w key data = Returns w' \<Longrightarrow> ds w' = ds w \<and> Validator w' = Validator w"
  by (auto simp: notifyWatchers_def split: option.splits dest: notifyEach_keeps_cache)

text \<open>
  C9. On the in-memory datastore of the constructor, for a key whose cached value \<open>val\<close>
  passes validation (\<open>getLocal\<close> returns it): \<open>isBetter\<close> accepts \<open>val\<close>; the validator
  raises no error on it; the answer is the same whatever \<open>Select\<close> is, so the selector is
  not consulted; writing \<open>val\<close> again leaves the datastore as it is; and after the message
  has been handled the cache still holds \<open>val\<close>.
\<close>

theorem redelivery_accepted:
  assumes "ds w = MapDatastore m" and "getLocal w key = Inr val"
  shows "isBetter w key val \<and>
         Validate (Validator w) key val = None \<and>
         (\<forall>sel. isBetter (w\<lparr>Validator := (Validator w)\<lparr>Select := sel\<rparr>\<rparr>) key val) \<and>
         ds_Put (ds w) (NewKeyFromBinary key) val = (None, ds w) \<and>
         (\<forall>w'. handleMessage w key val = Returns w'
            \<longrightarrow> ds w' = ds w \<and> getLocal w' key = Inr val)"
proof -
  have stored: "m (NewKeyFromBinary key) = Some val"
    using assms by (simp add: getLocal_def split: option.splits)
  have valid: "Validate (Validator w) key val = None"
    using assms by (simp add: getLocal_def split: option.splits)
  have better: "isBetter w key val"
    using assms valid by (simp add: isBetter_def)
  have any: "isBetter (w\<lparr>Validator := (Validator w)\<lparr>Select := sel\<rparr>\<rparr>) key val" for sel
    using assms(1) stored valid by (simp add: isBetter_def getLocal_def)
  have "m(NewKeyFromBinary key \<mapsto> val) = m"
    using stored by (rule map_upd_triv)
  then have put: "ds_Put (ds w) (NewKeyFromBinary key) val = (None, ds w)"
    using assms(1) by simp
  have "ds w' = ds w \<and> getLocal w' key = Inr val"
    if h: "handleMessage w key val = Returns w'" for w'
  proof -
    have "notifyWatchers w key val = Returns w'"
      using h better put by (simp add: handleMessage_def)
    then have "ds w' = ds w \<and> Validator w' = Validator w"
      by (rule notifyWatchers_keeps_cache)
    then show ?thesis using assms(2) getLocal_cong [of w' w key] by simp
  qed
  with valid better any put show ?thesis by blast
qed

theorem redelivery_accepted_witness:
  "isBetter (start (storeHolding ''k'' ''v1'')) ''k'' ''v1'' \<and>
   handleMessage (start (storeHolding ''k'' ''v1'')) ''k'' ''v1''
     = Returns (start (storeHolding ''k'' ''v1''))"
proof -
  have g: "getLocal (start (storeHolding ''k'' ''v1'')) ''k'' = Inr ''v1''"
    by (simp add: getLocal_def)
  have d: "ds (start (storeHolding ''k'' ''v1'')) = MapDatastore [NewKeyFromBinary ''k'' \<mapsto> ''v1'']"
    by simp
  have b: "isBetter (start (storeHolding ''k'' ''v1'')) ''k'' ''v1''"
    and p: "ds_Put (ds (start (storeHolding ''k'' ''v1''))) (NewKeyFromBinary ''k'') ''v1''
            = (None, ds (start (storeHolding ''k'' ''v1'')))"
    using redelivery_accepted [OF d g] by blast+
  have "handleMessage (start (storeHolding ''k'' ''v1'')) ''k'' ''v1''
     = Returns (start (storeHolding ''k'' ''v1''))"
    unfolding handleMessage_def using b p by (simp add: notifyWatchers_def)
  with b show ?thesis by simp
qed

subsection \<open>Bootstrap once per key\<close>

lemma do_call_step:
  assumes "touched_once k w" and "do_call w c = Returns w'"
  shows "touched_once k w' \<and>
         (subs w' k = None) = (subs w k = None \<and> call_key c \<noteq> k)"
proof (cases c)
  case (PutValue_call key val published)
  show ?thesis
  proof (cases "subs w key")
    case None
    then show ?thesis
      using assms PutValue_call
      by (auto simp: touched_once_def PutValue_absent bootstraps_def split: if_splits)
  next
    case (Some s)
    then show ?thesis
      using assms PutValue_call
      by (auto simp: touched_once_def PutValue_present bootstraps_def split: if_splits)
  qed
next
  case (Subscribe_call key subscribed)
  have unlocked: "\<not> mx w" using assms by (simp add: touched_once_def)
  show ?thesis
  proof (cases subscribed)
    case (Inl err)
    show ?thesis
    proof (cases "subs w key")
      case None
      then show ?thesis
        using assms Subscribe_call Inl unlocked Subscribe_failed_connect [of w key err]
        by simp
    next
      case (Some s)
      show ?thesis
      proof (cases s)
        case None
        then show ?thesis
          using assms Subscribe_call Inl unlocked Some Subscribe_failed_connect [of w key err]
          by simp
      next
        case (Some a)
        then show ?thesis
          using assms Subscribe_call unlocked \<open>subs w key = Some s\<close>
            Subscribe_active [of w key a subscribed]
          by (auto simp: touched_once_def split: if_splits)
      qed
    qed
  next
    case (Inr sub)
    show ?thesis
    proof (cases "subs w key")
      case None
      then show ?thesis
        using assms Subscribe_call Inr unlocked
        by (auto simp: touched_once_def Subscribe_absent bootstraps_def split: if_splits)
    next
      case (Some s)
      show ?thesis
      proof (cases s)
        case None
        then show ?thesis
          using assms Subscribe_call Inr unlocked Some
          by (auto simp: touched_once_def Subscribe_bootstrapped bootstraps_def split: if_splits)
      next
        case (Some a)
        then show ?thesis
          using assms Subscribe_call Inr unlocked \<open>subs w key = Some s\<close>
            Subscribe_active [of w key a subscribed]
          by (auto simp: touched_once_def split: if_splits)
      qed
    qed
  qed
qed


lemma run_calls_count:
  "touched_once k w \<Longrightarrow> run_calls w cs = Returns w' \<Longrightarrow>
   touched_once k w' \<and> (subs w' k = None) = (subs w k = None \<and> k \<notin> call_key ` set cs)"
proof (induction cs arbitrary: w)
  case Nil
  then show ?case by simp
next
  case (Cons c cs)
  then obtain w1 where c: "do_call w c = Returns w1" and r: "run_calls w1 cs = Returns w'"
    by (auto split: outcome.splits)
  from do_call_step [OF Cons.prems(1) c] Cons.IH [OF _ r] show ?case by auto
qed

lemma do_call_returns:
  "\<not> mx w \<Longrightarrow> transport_ok c \<Longrightarrow> \<exists>w'. do_call w c = Returns w' \<and> \<not> mx w'"
proof (cases c)
  case (PutValue_call key val published)
  assume "\<not> mx w"
  then show ?thesis using PutValue_call
    by (cases "subs w key") (simp_all add: PutValue_absent PutValue_present)
next
  case (Subscribe_call key subscribed)
  assume u: "\<not> mx w" and "transport_ok c"
  then obtain sub where s: "subscribed = Inr sub" using Subscribe_call by (cases subscribed) auto
  show ?thesis
  proof (cases "subs w key")
    case None
    then show ?thesis using u s Subscribe_call by (simp add: Subscribe_absent)
  next
    case (Some a)
    then show ?thesis using u s Subscribe_call
      by (cases a) (simp_all add: Subscribe_bootstrapped Subscribe_active)
  qed
qed

lemma run_calls_returns:
  "\<not> mx w \<Longrightarrow> list_all transport_ok cs \<Longrightarrow> \<exists>w'. run_calls w cs = Returns w'"
proof (induction cs arbitrary: w)
  case Nil
  then show ?case by simp
next
  case (Cons c cs)
  then obtain w1 where "do_call w c = Returns w1" "\<not> mx w1"
    using do_call_returns [of w c] by auto
  then show ?case using Cons.IH [of w1] Cons.prems by simp
qed

text \<open>
  C6. Start where \<open>key\<close> has no entry and \<open>bootstrapPubsub\<close> has not been started for it.
  After any sequence of \<open>PutValue\<close> and \<open>Subscribe\<close> calls (on this key and on others)
  that the process survives, \<open>bootstrapPubsub\<close> has been started for \<open>key\<close> exactly once
  if some call was on \<open>key\<close>, and not at all otherwise: the first call on the key starts
  it, no later call starts it again. Every sequence in which the transport refuses no
  \<open>Subscribe\<close> runs to its end.
\<close>

theorem bootstrap_at_most_once:
  assumes "\<not> mx w" and "subs w key = None" and "bootstraps key w = 0"
  shows "(\<forall>w'. run_calls w cs = Returns w'
            \<longrightarrow> bootstraps key w' = (if key \<in> call_key ` set cs then 1 else 0)) \<and>
         (list_all transport_ok cs \<longrightarrow> (\<exists>w'. run_calls w cs = Returns w'))"
proof -
  have t: "touched_once key w" using assms by (simp add: touched_once_def)
  have "bootstraps key w' = (if key \<in> call_key ` set cs then 1 else 0)"
    if "run_calls w cs = Returns w'" for w'
    using run_calls_count [OF t that] assms(2) by (auto simp: touched_once_def)
  then show ?thesis using run_calls_returns [OF assms(1)] by blast
qed

theorem bootstrap_at_most_once_witness:
  "\<exists>w'. run_calls newProcess
      [PutValue_call ''k'' ''v1'' None, Subscribe_call ''k'' (Inr 7),
       PutValue_call ''k'' ''v2'' None, Subscribe_call ''k'' (Inr 8),
       Subscribe_call ''j'' (Inr 9)] = Returns w' \<and>
     bootstraps ''k'' w' = 1 \<and> bootstraps ''j'' w' = 1 \<and> bootstraps ''i'' w' = 0"
proof -
  let ?cs = "[PutValue_call ''k'' ''v1'' None, Subscribe_call ''k'' (Inr 7),
       PutValue_call ''k'' ''v2'' None, Subscribe_call ''k'' (Inr 8),
       Subscribe_call ''j'' (Inr 9)]"
  have k: "(\<forall>w'. run_calls newProcess ?cs = Returns w' \<longrightarrow> bootstraps ''k'' w' = 1) \<and>
           (\<exists>w'. run_calls newProcess ?cs = Returns w')"
    using bootstrap_at_most_once [of newProcess "''k''" ?cs] by (simp add: bootstraps_def)
  have j: "\<forall>w'. run_calls newProcess ?cs = Returns w' \<longrightarrow> bootstraps ''j'' w' = 1"
    using bootstrap_at_most_once [of newProcess "''j''" ?cs] by (simp add: bootstraps_def)
  have i: "\<forall>w'. run_calls newProcess ?cs = Returns w' \<longrightarrow> bootstraps ''i'' w' = 0"
    using bootstrap_at_most_once [of newProcess "''i''" ?cs] by (simp add: bootstraps_def)
  from k j i show ?thesis by blast
qed

subsection \<open>Publishing to a listener that has not read\<close>

lemma getLocal_newProcess: "ds w = NewMapDatastore \<Longrightarrow> getLocal w key = Inl routing_ErrNotFound"
  by (simp add: getLocal_def NewMapDatastore_def)

lemma listening_state:
  "\<exists>w. listening = Returns w \<and> watching w ''k'' = Some (Suc 0) \<and>
     groups w (Suc 0) = Some \<lparr>closing = False, listeners = [(2, WithCancel 4 Background)]\<rparr> \<and>
     chans w 2 = Some (make_chan 1) \<and> chans w 3 = Some (make_chan 1) \<and> cancelled w = [] \<and>
     \<not> mx w \<and> ds w = NewMapDatastore \<and> Validator w = nonEmptyValidator"
  by (simp add: listening_def SearchValue_def Subscribe_absent getLocal_newProcess Let_def
      add_def relay_step_def listeners_put_def set_relay_pc_def)

lemma notify_first:
  assumes "watching w key = Some g" and "groups w g = Some sg"
    and "listeners sg = [(c, cx)]" and "chans w c = Some ch" and "\<not> isClosed ch"
    and "length (buf ch) < cap ch"
  shows "notifyWatchers w key data =
           Returns (w\<lparr>chans := (chans w)(c \<mapsto> ch\<lparr>buf := buf ch @ [data]\<rparr>)\<rparr>)"
  using assms by (simp add: notifyWatchers_def can_send_def send_def)

lemma notifyEach_blocks:
  assumes "(c, cx) \<in> set ls" and "distinct (map fst ls)"
    and "chans w c = Some ch" and "\<not> isClosed ch" and "length (buf ch) = cap ch"
    and "\<not> closing_closed w g" and "\<not> ctx_Done (cancelled w) cx"
    and "list_all (\<lambda>l. case chans w (fst l) of None \<Rightarrow> True | Some ch' \<Rightarrow> \<not> isClosed ch') ls"
  shows "notifyEach w g ls data = Blocks"
  using assms
proof (induction ls arbitrary: w)
  case Nil
  then show ?case by simp
next
  case (Cons l ls)
  obtain watcher cx' where l: "l = (watcher, cx')" by (cases l)
  show ?case
  proof (cases "watcher = c")
    case True
    have "cx' = cx"
      using Cons.prems(1,2) l True by (auto simp: image_iff)
    then show ?thesis using Cons.prems l True by (simp add: can_send_def)
  next
    case False
    then have mem: "(c, cx) \<in> set ls" using Cons.prems(1) l by auto
    have dist: "distinct (map fst ls)" using Cons.prems(2) by simp
    have rest: "list_all (\<lambda>l. case chans w (fst l) of None \<Rightarrow> True | Some ch' \<Rightarrow> \<not> isClosed ch') ls"
      using Cons.prems(8) by simp
    have skip: "notifyEach w g ls data = Blocks"
      using Cons.IH [OF mem dist Cons.prems(3-7) rest] .
    show ?thesis
    proof (cases "can_send w watcher")
      case True
      then obtain ch' where ch': "chans w watcher = Some ch'" "\<not> isClosed ch'"
          "length (buf ch') < cap ch'"
        using Cons.prems(8) l by (auto simp: can_send_def split: option.splits)
      let ?w = "w\<lparr>chans := (chans w)(watcher \<mapsto> ch'\<lparr>buf := buf ch' @ [data]\<rparr>)\<rparr>"
      have s: "send w watcher data = Returns ?w" using ch' by (simp add: send_def)
      have "watcher \<notin> fst ` set ls" using Cons.prems(2) l by simp
      then have rest': "list_all (\<lambda>l. case chans ?w (fst l) of None \<Rightarrow> True
                                      | Some ch' \<Rightarrow> \<not> isClosed ch') ls"
        using rest ch' by (auto simp: list_all_iff split: option.splits)
      have "notifyEach ?w g ls data = Blocks"
        using Cons.IH [of ?w, OF mem dist _ Cons.prems(4,5) _ _ rest'] Cons.prems(3,6,7) False
        by (simp add: closing_closed_def)
      then show ?thesis using l True s by simp
    next
      case False
      then show ?thesis using l skip by simp
    qed
  qed
qed

text \<open>
  C2. Any listener of the group whose channel already holds an unread value, in a group
  that is not closing and with its context alive, makes \<open>notifyWatchers\<close> wait (the
  listeners' channels being open, as they are while registered): the pending value is
  not replaced, and the goroutine of \<open>handleSubscription\<close> that called it is held up.
  The listeners map is keyed by the caller's channel, so the send of line 280 goes to
  that channel of capacity one and never to \<open>proxy\<close>.
\<close>

theorem notifyWatchers_blocks_on_pending:
  assumes "watching w key = Some g" and "groups w g = Some sg"
    and "(c, cx) \<in> set (listeners sg)" and "distinct (map fst (listeners sg))"
    and "chans w c = Some ch" and "\<not> isClosed ch" and "length (buf ch) = cap ch"
    and "\<not> closing sg" and "\<not> ctx_Done (cancelled w) cx"
    and "list_all (\<lambda>l. case chans w (fst l) of None \<Rightarrow> True | Some ch' \<Rightarrow> \<not> isClosed ch')
           (listeners sg)"
  shows "notifyWatchers w key data = Blocks"
  using assms notifyEach_blocks [of c cx "listeners sg" w ch g data]
  by (simp add: notifyWatchers_def closing_closed_def)

theorem notifyWatchers_blocks_on_pending_witness:
  "andThen listening (\<lambda>w.
     andThen (notifyWatchers w ''k'' ''v1'') (\<lambda>w. notifyWatchers w ''k'' ''v2'')) = Blocks"
proof -
  obtain w where w: "listening = Returns w" "watching w ''k'' = Some (Suc 0)"
     "groups w (Suc 0) = Some \<lparr>closing = False, listeners = [(2, WithCancel 4 Background)]\<rparr>"
     "chans w 2 = Some (make_chan 1)" "cancelled w = []"
    using listening_state by blast
  let ?w1 = "w\<lparr>chans := (chans w)(2 \<mapsto> (make_chan 1)\<lparr>buf := buf (make_chan 1) @ [''v1'']\<rparr>)\<rparr>"
  have 1: "notifyWatchers w ''k'' ''v1'' = Returns ?w1"
    using notify_first [of w "''k''" "Suc 0"
        "\<lparr>closing = False, listeners = [(2, WithCancel 4 Background)]\<rparr>"
        2 "WithCancel 4 Background" "make_chan 1" "''v1''"]
    by (simp add: w make_chan_def)
  have 2: "notifyWatchers ?w1 ''k'' ''v2'' = Blocks"
    using notifyWatchers_blocks_on_pending
      [of ?w1 "''k''" "Suc 0" "\<lparr>closing = False, listeners = [(2, WithCancel 4 Background)]\<rparr>"
          2 "WithCancel 4 Background"
          "(make_chan 1)\<lparr>buf := buf (make_chan 1) @ [''v1'']\<rparr>" "''v2''"]
    by (simp add: w make_chan_def)
  show ?thesis by (simp only: w(1) andThen.simps 1 2)
qed

text \<open>
  When the listener reads between the messages it receives every value in turn, not only
  the last one, and \<open>proxy\<close> stays empty throughout.
\<close>

lemma listener_reads_every_value:
  "andThen listening (\<lambda>w.
     andThen (notifyWatchers w ''k'' ''v1'') (\<lambda>w.
     andThen (recv w 2) (\<lambda>(r1, w).
     andThen (notifyWatchers w ''k'' ''v2'') (\<lambda>w.
     andThen (recv w 2) (\<lambda>(r2, w).
     andThen (notifyWatchers w ''k'' ''v3'') (\<lambda>w.
     andThen (recv w 2) (\<lambda>(r3, w).
       Returns ([r1, r2, r3], chans w 3 = Some (make_chan 1)))))))))
   = Returns ([(''v1'', True), (''v2'', True), (''v3'', True)], True)"
proof -
  obtain w where w: "listening = Returns w" "watching w ''k'' = Some (Suc 0)"
     "groups w (Suc 0) = Some \<lparr>closing = False, listeners = [(2, WithCancel 4 Background)]\<rparr>"
     "chans w 2 = Some (make_chan 1)" "chans w 3 = Some (make_chan 1)" "cancelled w = []"
    using listening_state by blast
  show ?thesis
    by (simp add: w notifyWatchers_def can_send_def send_def recv_def make_chan_def)
qed

text \<open>
  \<open>Cancel\<close> on the key of this listener: it returns true, the key is gone from
  \<open>GetSubscriptions\<close>, and the goroutine of \<open>add\<close> closes the listener's channel.
\<close>

lemma Cancel_closes_listener:
  "andThen listening (\<lambda>w.
     andThen (Cancel w ''k'') (\<lambda>(ok, w).
     andThen (GetSubscriptions w) (\<lambda>(keys, w).
     andThen (relay_step w 0) (\<lambda>w.
     andThen (recv w 2) (\<lambda>(r, w). Returns (ok, keys, r))))))
   = Returns (True, {}, ([], False))"
  by (simp add: listening_def SearchValue_def Subscribe_absent getLocal_newProcess Let_def
      add_def relay_step_def listeners_put_def set_relay_pc_def Cancel_def mx_Lock_def
      mx_Unlock_def sub_Cancel_def GetSubscriptions_def closing_closed_def can_recv_def
      relay_exit_def listeners_delete_def close_def recv_def make_chan_def)

subsection \<open>Joining a watch group\<close>

lemma getLocal_updates [simp]:
  "getLocal (w\<lparr>mx := a\<rparr>) key = getLocal w key"
  "getLocal (w\<lparr>subs := b\<rparr>) key = getLocal w key"
  "getLocal (w\<lparr>watching := c\<rparr>) key = getLocal w key"
  "getLocal (w\<lparr>groups := d\<rparr>) key = getLocal w key"
  "getLocal (w\<lparr>chans := e\<rparr>) key = getLocal w key"
  "getLocal (w\<lparr>relays := f\<rparr>) key = getLocal w key"
  "getLocal (w\<lparr>cancelled := g\<rparr>) key = getLocal w key"
  "getLocal (w\<lparr>fresh := h\<rparr>) key = getLocal w key"
  "getLocal (w\<lparr>trace := i\<rparr>) key = getLocal w key"
  by (simp_all add: getLocal_def cong: sum.case_cong)

text \<open>
  With a valid cache entry \<open>lv\<close>, \<open>SearchValue\<close> returns a channel that holds exactly \<open>lv\<close>.
  It returns with the listeners of every group as they were: the channel is not yet
  among them.
\<close>

lemma SearchValue_seed:
  assumes sub: "Subscribe w key subscribed = Returns (None, w1)"
    and cached: "getLocal w key = Inr lv"
  shows "\<exists>out w'. SearchValue w cx key subscribed = Returns (Inr out, w') \<and>
           chans w' out = Some \<lparr>buf = [lv], cap = 1, isClosed = False\<rparr> \<and>
           groups w' = (case watching w1 key of
                          Some g \<Rightarrow> groups w1
                        | None \<Rightarrow> (groups w1)(fresh w1 \<mapsto> \<lparr>closing = False, listeners = []\<rparr>))"
proof -
  have g: "getLocal w1 key = Inr lv"
    using Subscribe_keeps_cache [OF sub] getLocal_cong [of w1 w key] cached by simp
  show ?thesis
    by (cases "watching w1 key")
      (simp_all add: SearchValue_def sub Let_def g send_def make_chan_def add_def)
qed

lemma joined_state:
  "\<exists>w. SearchValue (start (storeHolding ''k'' ''v1'')) Background ''k'' (Inr 7)
         = Returns (Inr 2, w) \<and>
       watching w ''k'' = Some (Suc 0) \<and>
       groups w (Suc 0) = Some \<lparr>closing = False, listeners = []\<rparr> \<and>
       chans w 2 = Some \<lparr>buf = [''v1''], cap = Suc 0, isClosed = False\<rparr> \<and>
       chans w 3 = Some \<lparr>buf = [], cap = Suc 0, isClosed = False\<rparr> \<and>
       relays w = [\<lparr>r_wg = Suc 0, r_outCh = 2, r_proxy = 3, r_ctx = Background, r_pc = Spawned\<rparr>] \<and>
       cancelled w = [] \<and> fresh w = 4 \<and>
       ds w = MapDatastore [NewKeyFromBinary ''k'' \<mapsto> ''v1''] \<and>
       Validator w = nonEmptyValidator"
  by (simp add: SearchValue_def Subscribe_absent getLocal_def Let_def add_def send_def
      make_chan_def)

text \<open>
  C8. The value cached at the join is the first one in the returned channel, but an
  update can be lost between the seed and the registration. \<open>SearchValue\<close> returns with
  the seed \<open>''v1''\<close> in the channel; the subscription goroutine then accepts \<open>''v22''\<close>,
  writes it to the cache and notifies the group, whose listeners are still empty; only
  then does the goroutine of \<open>add\<close> register the channel. The listener reads \<open>''v1''\<close>
  and nothing more is pending for it, while the cache holds \<open>''v22''\<close>.
\<close>

theorem update_lost_before_registration:
  "andThen (SearchValue (start (storeHolding ''k'' ''v1'')) Background ''k'' (Inr 7))
     (\<lambda>(out, w).
        andThen (handleMessage w ''k'' ''v22'') (\<lambda>w.
        andThen (relay_step w 0) (\<lambda>w.
        andThen (recv w 2) (\<lambda>(first, w).
          Returns (out, first, getLocal w ''k'', can_recv w 2)))))
   = Returns (Inr 2, (''v1'', True), Inr ''v22'', False)"
proof -
  obtain w where w:
    "SearchValue (start (storeHolding ''k'' ''v1'')) Background ''k'' (Inr 7) = Returns (Inr 2, w)"
    "watching w ''k'' = Some (Suc 0)"
    "groups w (Suc 0) = Some \<lparr>closing = False, listeners = []\<rparr>"
    "chans w 2 = Some \<lparr>buf = [''v1''], cap = Suc 0, isClosed = False\<rparr>"
    "chans w 3 = Some \<lparr>buf = [], cap = Suc 0, isClosed = False\<rparr>"
    "relays w = [\<lparr>r_wg = Suc 0, r_outCh = 2, r_proxy = 3, r_ctx = Background, r_pc = Spawned\<rparr>]"
    "cancelled w = []" "fresh w = 4"
    "ds w = MapDatastore [NewKeyFromBinary ''k'' \<mapsto> ''v1'']"
    "Validator w = nonEmptyValidator"
    using joined_state by blast
  show ?thesis
    by (simp add: w handleMessage_def isBetter_def getLocal_def notifyWatchers_def
        relay_step_def listeners_put_def set_relay_pc_def recv_def can_recv_def)
qed

theorem update_lost_before_registration_witness:
  "\<exists>out first cached.
     andThen (SearchValue (start (storeHolding ''k'' ''v1'')) Background ''k'' (Inr 7))
       (\<lambda>(out, w).
          andThen (handleMessage w ''k'' ''v22'') (\<lambda>w.
          andThen (relay_step w 0) (\<lambda>w.
          andThen (recv w 2) (\<lambda>(first, w).
            Returns (out, first, getLocal w ''k'', can_recv w 2)))))
     = Returns (Inr out, (first, True), Inr cached, False) \<and> first \<noteq> cached"
  using update_lost_before_registration by simp

text \<open>
  When the goroutine of \<open>add\<close> registers the channel before the next message arrives, the
  listener reads the seed first and the update after it; until the seed is read the
  subscription goroutine waits.
\<close>

lemma seed_read_first:
  "andThen (SearchValue (start (storeHolding ''k'' ''v1'')) Background ''k'' (Inr 7))
     (\<lambda>(out, w).
        andThen (relay_step w 0) (\<lambda>w.
        andThen (recv w 2) (\<lambda>(first, w).
        andThen (handleMessage w ''k'' ''v22'') (\<lambda>w.
        andThen (recv w 2) (\<lambda>(second, w). Returns (first, second))))))
   = Returns ((''v1'', True), (''v22'', True)) \<and>
   andThen (SearchValue (start (storeHolding ''k'' ''v1'')) Background ''k'' (Inr 7))
     (\<lambda>(out, w). andThen (relay_step w 0) (\<lambda>w. handleMessage w ''k'' ''v22''))
   = Blocks"
proof -
  obtain w where w:
    "SearchValue (start (storeHolding ''k'' ''v1'')) Background ''k'' (Inr 7) = Returns (Inr 2, w)"
    "watching w ''k'' = Some (Suc 0)"
    "groups w (Suc 0) = Some \<lparr>closing = False, listeners = []\<rparr>"
    "chans w 2 = Some \<lparr>buf = [''v1''], cap = Suc 0, isClosed = False\<rparr>"
    "chans w 3 = Some \<lparr>buf = [], cap = Suc 0, isClosed = False\<rparr>"
    "relays w = [\<lparr>r_wg = Suc 0, r_outCh = 2, r_proxy = 3, r_ctx = Background, r_pc = Spawned\<rparr>]"
    "cancelled w = []" "fresh w = 4"
    "ds w = MapDatastore [NewKeyFromBinary ''k'' \<mapsto> ''v1'']"
    "Validator w = nonEmptyValidator"
    using joined_state by blast
  show ?thesis
    by (simp add: w handleMessage_def isBetter_def getLocal_def notifyWatchers_def
        relay_step_def listeners_put_def set_relay_pc_def recv_def can_recv_def
        can_send_def send_def closing_closed_def)
qed

subsection \<open>Racing first subscribers\<close>

lemma trace_lists_emit [simp]:
  "handlers key (emit e w) = handlers key w @ handler_of key e"
  "made key (emit e w) = made key w @ made_of key e"
  "cancels (emit e w) = cancels w @ cancel_of e"
  by (simp_all add: handlers_def made_def cancels_def)

lemma trace_lists_update [simp]:
  "handlers key (w\<lparr>subs := a, fresh := b\<rparr>) = handlers key w"
  "made key (w\<lparr>subs := a, fresh := b\<rparr>) = made key w"
  "cancels (w\<lparr>subs := a, fresh := b\<rparr>) = cancels w"
  by (simp_all add: handlers_def made_def cancels_def)

text \<open>Run alone, the statements of a call are \<open>Subscribe\<close>, for either answer of the transport.\<close>

lemma Subscribe_as_steps:
  "Subscribe w key subscribed =
     andThen (interleave w key [subscribed] [Line110] (replicate 12 0)) (\<lambda>(cs, w).
       case cs of [Returned err] \<Rightarrow> Returns (err, w) | _ \<Rightarrow> Blocks)"
proof (cases "mx w")
  case True
  then show ?thesis
    by (simp add: Subscribe_locked mx_Lock_def eval_nat_numeral)
next
  case False
  have u: "w\<lparr>mx := True, mx := False\<rparr> = w" "\<And>f. w\<lparr>mx := True, mx := False, trace := f\<rparr> = w\<lparr>trace := f\<rparr>"
    using False by simp_all
  show ?thesis
  proof (cases "subs w key")
    case None
    then show ?thesis using False
      by (cases subscribed)
        (simp_all add: Subscribe_absent Subscribe_failed_connect eval_nat_numeral
          mx_Lock_def mx_Unlock_def emit_def Let_def)
  next
    case (Some s)
    then show ?thesis using False
      by (cases s; cases subscribed)
        (simp_all add: Subscribe_bootstrapped Subscribe_active Subscribe_failed_connect
          eval_nat_numeral mx_Lock_def mx_Unlock_def emit_def Let_def)
  qed
qed

text \<open>
  C5. Three callers invoke \<open>Subscribe(''k'')\<close> concurrently for the first time and the
  transport refuses the first. Its \<open>p.mx.Unlock()\<close> of line 129 frees the mutex that
  caller 1 holds between lines 133 and 144, so caller 2 enters the same stretch and both
  read an empty entry: \<open>go p.handleSubscription\<close> is started twice for the key, for the
  subscriptions 8 and 9, neither of which is cancelled. Caller 1 then unlocks the mutex
  that caller 2 took, and the unlock of caller 2 is a fatal error.
\<close>

theorem two_goroutines_for_one_key:
  "andThen (interleave newProcess ''k'' [Inl (Err ''refused''), Inr 8, Inr 9]
              [Line110, Line110, Line110] strayUnlockRace)
     (\<lambda>(cs, w). Returns (cs, handlers ''k'' w, cancels w, subs w ''k'', mx w))
   = Returns ([Returned (Some (Err ''refused'')), Line144 8 False 0, Line144 9 False 1],
              [8, 9], [], Some (Some 9), True) \<and>
   interleave newProcess ''k'' [Inl (Err ''refused''), Inr 8, Inr 9]
     [Line110, Line110, Line110] (strayUnlockRace @ [1, 1, 2])
   = Fatal ''sync: unlock of unlocked mutex''"
  by (simp add: strayUnlockRace_def eval_nat_numeral mx_Lock_def mx_Unlock_def Let_def
      handlers_def cancels_def emit_def)

theorem two_goroutines_for_one_key_witness:
  "\<exists>cs w. interleave newProcess ''k'' [Inl (Err ''refused''), Inr 8, Inr 9]
             [Line110, Line110, Line110] strayUnlockRace = Returns (cs, w) \<and>
          length (handlers ''k'' w) = 2 \<and> cancels w = []"
proof -
  obtain r where r: "interleave newProcess ''k'' [Inl (Err ''refused''), Inr 8, Inr 9]
                       [Line110, Line110, Line110] strayUnlockRace = Returns r"
    using two_goroutines_for_one_key
    by (cases "interleave newProcess ''k'' [Inl (Err ''refused''), Inr 8, Inr 9]
                 [Line110, Line110, Line110] strayUnlockRace") simp_all
  then show ?thesis using two_goroutines_for_one_key by (cases r) auto
qed

text \<open>
  When the transport refuses nobody, the mutex does serialize the callers. Every
  statement keeps the state described by \<open>serialized\<close>, so under every schedule the run
  goes on without a panic or a fatal error, at most one goroutine is started for the key
  at any time, and once all callers have returned exactly one subscription is installed
  with its goroutine, the others that were made are cancelled, and every caller has
  returned nil. While a caller has not returned, some caller can run.
\<close>

lemma trace_lists_fields [simp]:
  "made key (w\<lparr>mx := a\<rparr>) = made key w"
  "made key (w\<lparr>subs := b\<rparr>) = made key w"
  "made key (w\<lparr>fresh := c\<rparr>) = made key w"
  "handlers key (w\<lparr>mx := a\<rparr>) = handlers key w"
  "handlers key (w\<lparr>subs := b\<rparr>) = handlers key w"
  "handlers key (w\<lparr>fresh := c\<rparr>) = handlers key w"
  "cancels (w\<lparr>mx := a\<rparr>) = cancels w"
  "cancels (w\<lparr>subs := b\<rparr>) = cancels w"
  "cancels (w\<lparr>fresh := c\<rparr>) = cancels w"
  by (simp_all add: made_def handlers_def cancels_def)

lemma move_only:
  assumes inv: "serialized key hs w cs" and i: "i < length hs"
    and h: "holds c = holds (cs ! i)" and p: "pending_of c = pending_of (cs ! i)"
    and s: "starting c = starting (cs ! i)"
    and l: "local_ok w key (hs ! i) c"
  shows "serialized key hs w (cs[i := c])"
proof -
  have len: "length cs = length hs" using inv by (simp add: serialized_def)
  have nth: "cs[i := c] ! j = (if j = i then c else cs ! j)" if "j < length hs" for j
    using that len i by (simp add: nth_list_update)
  have H: "holds (cs[i := c] ! j) = holds (cs ! j)" if "j < length hs" for j
    using nth [OF that] h by simp
  have P: "pending_of (cs[i := c] ! j) = pending_of (cs ! j)" if "j < length hs" for j
    using nth [OF that] p by simp
  have S: "starting (cs[i := c] ! j) = starting (cs ! j)" if "j < length hs" for j
    using nth [OF that] s by simp
  have L: "local_ok w key (hs ! j) (cs[i := c] ! j)" if "j < length hs" for j
    using nth [OF that] l inv that by (simp add: serialized_def)
  have EH: "(\<exists>j < length hs. holds (cs[i := c] ! j)) = (\<exists>j < length hs. holds (cs ! j))"
    using H by blast
  have ES: "(\<exists>j < length hs. starting (cs[i := c] ! j)) = (\<exists>j < length hs. starting (cs ! j))"
    using S by blast
  show ?thesis
    using inv unfolding serialized_def EH ES by (simp add: H P L len)
qed


lemma local_ok_cong:
  "subs w' = subs w \<Longrightarrow> made key w' = made key w \<Longrightarrow>
   local_ok w' key h c = local_ok w key h c"
  by (cases c) (simp_all add: active_def)

lemma serialized_cong:
  assumes "serialized key hs w cs" and "subs w' = subs w" and "made key w' = made key w"
    and "handlers key w' = handlers key w" and "cancels w' = cancels w" and "mx w' = mx w"
  shows "serialized key hs w' cs"
  using assms local_ok_cong [of w' w key] unfolding serialized_def by simp

lemma lock_step:
  assumes inv: "serialized key hs w cs" and i: "i < length hs" and free: "\<not> mx w"
    and h: "\<not> holds (cs ! i)" "holds c" and p: "pending_of c = pending_of (cs ! i)"
    and s: "starting c = starting (cs ! i)"
    and l: "local_ok w key (hs ! i) c"
  shows "serialized key hs (w\<lparr>mx := True\<rparr>) (cs[i := c])"
proof -
  have len: "length cs = length hs" using inv by (simp add: serialized_def)
  have none: "\<not> holds (cs ! j)" if "j < length hs" for j
    using inv free that by (auto simp: serialized_def)
  have nth: "cs[i := c] ! j = (if j = i then c else cs ! j)" if "j < length hs" for j
    using that len i by (simp add: nth_list_update)
  have H: "holds (cs[i := c] ! j) = (j = i)" if "j < length hs" for j
    using nth [OF that] h none [OF that] by simp
  have P: "pending_of (cs[i := c] ! j) = pending_of (cs ! j)" if "j < length hs" for j
    using nth [OF that] p by simp
  have S: "starting (cs[i := c] ! j) = starting (cs ! j)" if "j < length hs" for j
    using nth [OF that] s by simp
  have L: "local_ok (w\<lparr>mx := True\<rparr>) key (hs ! j) (cs[i := c] ! j)" if "j < length hs" for j
    using nth [OF that] l inv that local_ok_cong [of "w\<lparr>mx := True\<rparr>" w key]
    by (simp add: serialized_def made_def)
  have EH: "(\<exists>j < length hs. holds (cs[i := c] ! j))" using H i by blast
  have ES: "(\<exists>j < length hs. starting (cs[i := c] ! j)) = (\<exists>j < length hs. starting (cs ! j))"
    using S by blast
  have X: "\<forall>a < length hs. \<forall>b < length hs.
             holds (cs[i := c] ! a) \<longrightarrow> holds (cs[i := c] ! b) \<longrightarrow> a = b"
    using H by simp
  show ?thesis
    using inv EH X unfolding serialized_def ES
    by (simp add: P L len made_def handlers_def cancels_def)
qed

lemma unlock_step:
  assumes inv: "serialized key hs w cs" and i: "i < length hs"
    and h: "holds (cs ! i)" "\<not> holds c" and p: "pending_of c = pending_of (cs ! i)"
    and s: "starting c = starting (cs ! i)"
    and l: "local_ok w key (hs ! i) c"
  shows "mx w \<and> serialized key hs (w\<lparr>mx := False\<rparr>) (cs[i := c])"
proof -
  have len: "length cs = length hs" using inv by (simp add: serialized_def)
  have locked: "mx w" using inv i h by (auto simp: serialized_def)
  have only: "j = i" if "j < length hs" "holds (cs ! j)" for j
    using inv i h that by (auto simp: serialized_def)
  have nth: "cs[i := c] ! j = (if j = i then c else cs ! j)" if "j < length hs" for j
    using that len i by (simp add: nth_list_update)
  have H: "\<not> holds (cs[i := c] ! j)" if "j < length hs" for j
    using nth [OF that] h only [OF that] by auto
  have P: "pending_of (cs[i := c] ! j) = pending_of (cs ! j)" if "j < length hs" for j
    using nth [OF that] p by simp
  have S: "starting (cs[i := c] ! j) = starting (cs ! j)" if "j < length hs" for j
    using nth [OF that] s by simp
  have L: "local_ok (w\<lparr>mx := False\<rparr>) key (hs ! j) (cs[i := c] ! j)" if "j < length hs" for j
    using nth [OF that] l inv that local_ok_cong [of "w\<lparr>mx := False\<rparr>" w key]
    by (simp add: serialized_def made_def)
  have EH: "\<not> (\<exists>j < length hs. holds (cs[i := c] ! j))" using H by blast
  have ES: "(\<exists>j < length hs. starting (cs[i := c] ! j)) = (\<exists>j < length hs. starting (cs ! j))"
    using S by blast
  have X: "\<forall>a < length hs. \<forall>b < length hs.
             holds (cs[i := c] ! a) \<longrightarrow> holds (cs[i := c] ! b) \<longrightarrow> a = b"
    using H by simp
  have "serialized key hs (w\<lparr>mx := False\<rparr>) (cs[i := c])"
    using inv EH X unfolding serialized_def ES
    by (simp add: P L len made_def handlers_def cancels_def)
  then show ?thesis using locked by simp
qed


lemma pending_own:
  assumes inv: "serialized key hs w cs" and j: "j < length hs"
    and p: "pending_of (cs ! j) = Some x"
  shows "x = hs ! j \<and> x \<in> set (made key w) \<and> subs w key \<noteq> Some (Some x)"
proof -
  have "local_ok w key (hs ! j) (cs ! j)" using inv j by (simp add: serialized_def)
  then show ?thesis using p by (cases "cs ! j") (auto simp: active_def split: option.splits)
qed

lemma make_step:
  assumes inv: "serialized key hs w cs" and d: "distinct hs" and i: "i < length hs"
    and at: "cs ! i = Line127"
  shows "serialized key hs (emit (Call_Subscribe key (Inr (hs ! i))) w)
           (cs[i := Line133 (hs ! i)])"
proof -
  let ?w = "emit (Call_Subscribe key (Inr (hs ! i))) w"
  let ?cs = "cs[i := Line133 (hs ! i)]"
  have len: "length cs = length hs" using inv by (simp add: serialized_def)
  have new: "hs ! i \<notin> set (made key w)"
    using inv i at by (auto simp: serialized_def dest!: spec [of _ i])
  have made': "set (made key ?w) = insert (hs ! i) (set (made key w))" by simp
  have nth: "?cs ! j = (if j = i then Line133 (hs ! i) else cs ! j)" if "j < length hs" for j
    using that len i by (simp add: nth_list_update)
  have H: "holds (?cs ! j) = holds (cs ! j)" if "j < length hs" for j
    using nth [OF that] at by simp
  have S: "starting (?cs ! j) = starting (cs ! j)" if "j < length hs" for j
    using nth [OF that] at by simp
  have EH: "(\<exists>j < length hs. holds (?cs ! j)) = (\<exists>j < length hs. holds (cs ! j))"
    using H by blast
  have ES: "(\<exists>j < length hs. starting (?cs ! j)) = (\<exists>j < length hs. starting (cs ! j))"
    using S by blast
  have X: "\<forall>a < length hs. \<forall>b < length hs. holds (?cs ! a) \<longrightarrow> holds (?cs ! b) \<longrightarrow> a = b"
    using inv H by (simp add: serialized_def)
  have inst: "\<forall>s. subs ?w key = Some (Some s) \<longrightarrow> s \<in> set (made key ?w)"
    using inv by (auto simp: serialized_def)
  have notinst: "subs w key \<noteq> Some (Some (hs ! i))"
    using inv new by (auto simp: serialized_def)
  have L: "local_ok ?w key (hs ! j) (?cs ! j)" if j: "j < length hs" for j
  proof (cases "j = i")
    case True
    then show ?thesis using nth [OF j] notinst by simp
  next
    case False
    then have ne: "hs ! j \<noteq> hs ! i" using d i j by (simp add: nth_eq_iff_index_eq)
    have old: "local_ok w key (hs ! j) (cs ! j)" using inv j by (simp add: serialized_def)
    show ?thesis using nth [OF j] False old ne
      by (cases "cs ! j") (auto simp: active_def)
  qed
  have C: "h \<in> set (cancels ?w) \<longleftrightarrow>
            h \<in> set (made key ?w) \<and> subs ?w key \<noteq> Some (Some h) \<and>
            (\<forall>j < length hs. pending_of (?cs ! j) \<noteq> Some h)" for h
  proof -
    have old: "h \<in> set (cancels w) \<longleftrightarrow>
            h \<in> set (made key w) \<and> subs w key \<noteq> Some (Some h) \<and>
            (\<forall>j < length hs. pending_of (cs ! j) \<noteq> Some h)"
      using inv by (simp add: serialized_def)
    have P: "(\<forall>j < length hs. pending_of (?cs ! j) \<noteq> Some h)
             \<longleftrightarrow> h \<noteq> hs ! i \<and> (\<forall>j < length hs. pending_of (cs ! j) \<noteq> Some h)"
    proof -
      have "pending_of (?cs ! j) \<noteq> Some h \<longleftrightarrow>
              (j = i \<longrightarrow> h \<noteq> hs ! i) \<and> (j \<noteq> i \<longrightarrow> pending_of (cs ! j) \<noteq> Some h)"
        if "j < length hs" for j
        using nth [OF that] by auto
      moreover have "pending_of (cs ! i) \<noteq> Some h" using at by simp
      ultimately show ?thesis using i by metis
    qed
    show ?thesis unfolding P using old new by auto
  qed
  have "set (made key ?w) \<subseteq> set hs" using inv i by (auto simp: serialized_def)
  moreover have "handlers key ?w =
        (case subs ?w key of
           Some (Some s) \<Rightarrow> if (\<exists>j < length hs. starting (?cs ! j)) then [] else [s]
         | _ \<Rightarrow> [])"
    unfolding ES using inv by (simp add: serialized_def)
  moreover have "mx ?w \<longleftrightarrow> (\<exists>j < length hs. holds (?cs ! j))"
    unfolding EH using inv by (simp add: serialized_def)
  moreover have "length ?cs = length hs" using len by simp
  ultimately show ?thesis
    using X inst L C unfolding serialized_def by blast
qed


lemma cancel_step:
  assumes inv: "serialized key hs w cs" and d: "distinct hs" and i: "i < length hs"
    and at: "cs ! i = Line137 s"
  shows "serialized key hs (emit (Call_SubCancel s) w) (cs[i := Returned None])"
proof -
  let ?w = "emit (Call_SubCancel s) w"
  let ?cs = "cs[i := Returned None]"
  have len: "length cs = length hs" using inv by (simp add: serialized_def)
  have own: "s = hs ! i" "s \<in> set (made key w)" "subs w key \<noteq> Some (Some s)"
    using pending_own [OF inv i, of s] at by auto
  have act: "active w key"
    using inv i at by (auto simp: serialized_def dest!: spec [of _ i])
  have nth: "?cs ! j = (if j = i then Returned None else cs ! j)" if "j < length hs" for j
    using that len i by (simp add: nth_list_update)
  have H: "holds (?cs ! j) = holds (cs ! j)" if "j < length hs" for j
    using nth [OF that] at by simp
  have S: "starting (?cs ! j) = starting (cs ! j)" if "j < length hs" for j
    using nth [OF that] at by simp
  have EH: "(\<exists>j < length hs. holds (?cs ! j)) = (\<exists>j < length hs. holds (cs ! j))"
    using H by blast
  have ES: "(\<exists>j < length hs. starting (?cs ! j)) = (\<exists>j < length hs. starting (cs ! j))"
    using S by blast
  have X: "\<forall>a < length hs. \<forall>b < length hs. holds (?cs ! a) \<longrightarrow> holds (?cs ! b) \<longrightarrow> a = b"
    using inv H by (simp add: serialized_def)
  have inst: "\<forall>s. subs ?w key = Some (Some s) \<longrightarrow> s \<in> set (made key ?w)"
    using inv by (auto simp: serialized_def)
  have L: "local_ok ?w key (hs ! j) (?cs ! j)" if j: "j < length hs" for j
  proof (cases "j = i")
    case True
    then show ?thesis using nth [OF j] act by (simp add: active_def)
  next
    case False
    have old: "local_ok w key (hs ! j) (cs ! j)" using inv j by (simp add: serialized_def)
    have "local_ok ?w key (hs ! j) (cs ! j) = local_ok w key (hs ! j) (cs ! j)"
      by (rule local_ok_cong) simp_all
    then show ?thesis using nth [OF j] False old by simp
  qed
  have C: "h \<in> set (cancels ?w) \<longleftrightarrow>
            h \<in> set (made key ?w) \<and> subs ?w key \<noteq> Some (Some h) \<and>
            (\<forall>j < length hs. pending_of (?cs ! j) \<noteq> Some h)" for h
  proof -
    have old: "h \<in> set (cancels w) \<longleftrightarrow>
            h \<in> set (made key w) \<and> subs w key \<noteq> Some (Some h) \<and>
            (\<forall>j < length hs. pending_of (cs ! j) \<noteq> Some h)"
      using inv by (simp add: serialized_def)
    have only: "j = i" if "j < length hs" "pending_of (cs ! j) = Some s" for j
    proof -
      have "s = hs ! j" using pending_own [OF inv that] by simp
      then show ?thesis using own(1) d i that(1) by (simp add: nth_eq_iff_index_eq)
    qed
    have P: "(\<forall>j < length hs. pending_of (?cs ! j) \<noteq> Some h)
             \<longleftrightarrow> h = s \<or> (\<forall>j < length hs. pending_of (cs ! j) \<noteq> Some h)"
    proof -
      have "pending_of (?cs ! j) \<noteq> Some h \<longleftrightarrow> j = i \<or> pending_of (cs ! j) \<noteq> Some h"
        if "j < length hs" for j
        using nth [OF that] by auto
      moreover have "pending_of (cs ! i) = Some s" using at by simp
      ultimately show ?thesis using only i by (metis option.inject)
    qed
    show ?thesis unfolding P using old own by auto
  qed
  have "set (made key ?w) \<subseteq> set hs" using inv by (auto simp: serialized_def)
  moreover have "handlers key ?w =
        (case subs ?w key of
           Some (Some s) \<Rightarrow> if (\<exists>j < length hs. starting (?cs ! j)) then [] else [s]
         | _ \<Rightarrow> [])"
    unfolding ES using inv by (simp add: serialized_def)
  moreover have "mx ?w \<longleftrightarrow> (\<exists>j < length hs. holds (?cs ! j))"
    unfolding EH using inv by (simp add: serialized_def)
  moreover have "length ?cs = length hs" using len by simp
  ultimately show ?thesis
    using X inst L C unfolding serialized_def by blast
qed

lemma write_step:
  assumes inv: "serialized key hs w cs" and d: "distinct hs" and i: "i < length hs"
    and at: "cs ! i = Line141 s b"
  shows "serialized key hs (w\<lparr>subs := (subs w)(key \<mapsto> Some s)\<rparr>) (cs[i := Line142 s b])"
proof -
  let ?w = "w\<lparr>subs := (subs w)(key \<mapsto> Some s)\<rparr>"
  let ?cs = "cs[i := Line142 s b]"
  have len: "length cs = length hs" using inv by (simp add: serialized_def)
  have own: "s = hs ! i" "s \<in> set (made key w)"
    using pending_own [OF inv i, of s] at by auto
  have inactive: "\<not> active w key"
    using inv i at by (auto simp: serialized_def dest!: spec [of _ i])
  have same: "made key ?w = made key w" "handlers key ?w = handlers key w"
    "cancels ?w = cancels w" "mx ?w = mx w" "subs ?w key = Some (Some s)"
    by (simp_all add: made_def handlers_def cancels_def)
  have only: "j = i" if "j < length hs" "holds (cs ! j)" for j
    using inv i at that by (auto simp: serialized_def)
  have nth: "?cs ! j = (if j = i then Line142 s b else cs ! j)" if "j < length hs" for j
    using that len i by (simp add: nth_list_update)
  have H: "holds (?cs ! j) = holds (cs ! j)" if "j < length hs" for j
    using nth [OF that] at by simp
  have EH: "(\<exists>j < length hs. holds (?cs ! j)) = (\<exists>j < length hs. holds (cs ! j))"
    using H by blast
  have ES: "\<exists>j < length hs. starting (?cs ! j)"
    using nth [OF i] i by auto
  have X: "\<forall>a < length hs. \<forall>b < length hs. holds (?cs ! a) \<longrightarrow> holds (?cs ! b) \<longrightarrow> a = b"
    using inv H by (simp add: serialized_def)
  have L: "local_ok ?w key (hs ! j) (?cs ! j)" if j: "j < length hs" for j
  proof (cases "j = i")
    case True
    then show ?thesis using nth [OF j] own by (auto simp: made_def)
  next
    case False
    then have ne: "hs ! j \<noteq> s" using d i j own(1) by (simp add: nth_eq_iff_index_eq)
    have nohold: "\<not> holds (cs ! j)" using only [OF j] False by blast
    have old: "local_ok w key (hs ! j) (cs ! j)" using inv j by (simp add: serialized_def)
    show ?thesis using nth [OF j] False old ne nohold inactive
      by (cases "cs ! j") (auto simp: active_def same made_def)
  qed
  have C: "h \<in> set (cancels ?w) \<longleftrightarrow>
            h \<in> set (made key ?w) \<and> subs ?w key \<noteq> Some (Some h) \<and>
            (\<forall>j < length hs. pending_of (?cs ! j) \<noteq> Some h)" for h
  proof -
    have old: "h \<in> set (cancels w) \<longleftrightarrow>
            h \<in> set (made key w) \<and> subs w key \<noteq> Some (Some h) \<and>
            (\<forall>j < length hs. pending_of (cs ! j) \<noteq> Some h)"
      using inv by (simp add: serialized_def)
    have notinst: "subs w key \<noteq> Some (Some h)" using inactive by (auto simp: active_def)
    have only_p: "j = i" if "j < length hs" "pending_of (cs ! j) = Some s" for j
    proof -
      have "s = hs ! j" using pending_own [OF inv that] by simp
      then show ?thesis using own(1) d i that(1) by (simp add: nth_eq_iff_index_eq)
    qed
    have P: "(\<forall>j < length hs. pending_of (?cs ! j) \<noteq> Some h)
             \<longleftrightarrow> h = s \<or> (\<forall>j < length hs. pending_of (cs ! j) \<noteq> Some h)"
    proof -
      have "pending_of (?cs ! j) \<noteq> Some h \<longleftrightarrow> j = i \<or> pending_of (cs ! j) \<noteq> Some h"
        if "j < length hs" for j
        using nth [OF that] by auto
      moreover have "pending_of (cs ! i) = Some s" using at by simp
      ultimately show ?thesis using only_p i by (metis option.inject)
    qed
    have pi: "pending_of (cs ! i) = Some s" using at by simp
    show ?thesis
    proof (cases "h = s")
      case True
      have "h \<notin> set (cancels w)" using old pi i True by blast
      then show ?thesis using True by (simp add: same)
    next
      case False
      then show ?thesis unfolding P same using old notinst by auto
    qed
  qed
  have "set (made key ?w) \<subseteq> set hs" using inv by (simp add: serialized_def same)
  moreover have "handlers key ?w =
        (case subs ?w key of
           Some (Some s) \<Rightarrow> if (\<exists>j < length hs. starting (?cs ! j)) then [] else [s]
         | _ \<Rightarrow> [])"
    using inv inactive ES by (auto simp: serialized_def same active_def split: option.splits)
  moreover have "mx ?w \<longleftrightarrow> (\<exists>j < length hs. holds (?cs ! j))"
    unfolding EH using inv by (simp add: serialized_def)
  moreover have "length ?cs = length hs" using len by simp
  moreover have "\<forall>s'. subs ?w key = Some (Some s') \<longrightarrow> s' \<in> set (made key ?w)"
    using own(2) by (simp add: same)
  ultimately show ?thesis
    using X L C unfolding serialized_def by blast
qed


lemma go_step:
  assumes inv: "serialized key hs w cs" and i: "i < length hs"
    and at: "cs ! i = Line142 s b"
  shows "serialized key hs (emit (Go_handleSubscription s key (fresh w)) (w\<lparr>fresh := fresh w + 1\<rparr>))
           (cs[i := Line144 s b (fresh w)])"
proof -
  let ?w = "emit (Go_handleSubscription s key (fresh w)) (w\<lparr>fresh := fresh w + 1\<rparr>)"
  let ?cs = "cs[i := Line144 s b (fresh w)]"
  have len: "length cs = length hs" using inv by (simp add: serialized_def)
  have own: "local_ok w key (hs ! i) (Line142 s b)"
    using inv i at by (auto simp: serialized_def dest!: spec [of _ i])
  then have inst: "subs w key = Some (Some s)" and smade: "s \<in> set (made key w)" by auto
  have same: "made key ?w = made key w" "cancels ?w = cancels w" "mx ?w = mx w"
    "subs ?w = subs w" "handlers key ?w = handlers key w @ [s]"
    by (simp_all add: made_def handlers_def cancels_def)
  have only: "j = i" if "j < length hs" "holds (cs ! j)" for j
    using inv i at that by (auto simp: serialized_def)
  have nth: "?cs ! j = (if j = i then Line144 s b (fresh w) else cs ! j)" if "j < length hs" for j
    using that len i by (simp add: nth_list_update)
  have H: "holds (?cs ! j) = holds (cs ! j)" if "j < length hs" for j
    using nth [OF that] at by simp
  have P: "pending_of (?cs ! j) = pending_of (cs ! j)" if "j < length hs" for j
    using nth [OF that] at by simp
  have EH: "(\<exists>j < length hs. holds (?cs ! j)) = (\<exists>j < length hs. holds (cs ! j))"
    using H by blast
  have was: "\<exists>j < length hs. starting (cs ! j)" using at i by auto
  have ES: "\<not> (\<exists>j < length hs. starting (?cs ! j))"
  proof
    assume "\<exists>j < length hs. starting (?cs ! j)"
    then obtain j where j: "j < length hs" "starting (?cs ! j)" by blast
    then have "j \<noteq> i" using nth [OF j(1)] by auto
    then have "starting (cs ! j)" using nth [OF j(1)] j(2) by simp
    then have "holds (cs ! j)" by (cases "cs ! j") simp_all
    then show False using only [OF j(1)] \<open>j \<noteq> i\<close> by blast
  qed
  have X: "\<forall>a < length hs. \<forall>b < length hs. holds (?cs ! a) \<longrightarrow> holds (?cs ! b) \<longrightarrow> a = b"
    using inv H by (simp add: serialized_def)
  have L: "local_ok ?w key (hs ! j) (?cs ! j)" if j: "j < length hs" for j
  proof -
    have old: "local_ok w key (hs ! j) (cs ! j)" using inv j by (simp add: serialized_def)
    have eq: "local_ok ?w key (hs ! j) (?cs ! j) = local_ok w key (hs ! j) (?cs ! j)"
      by (rule local_ok_cong) simp_all
    have "local_ok w key (hs ! j) (?cs ! j)"
    proof (cases "j = i")
      case True
      then show ?thesis using nth [OF j] own by simp
    next
      case False
      then show ?thesis using nth [OF j] old by simp
    qed
    then show ?thesis using eq by blast
  qed
  have C: "\<forall>h. h \<in> set (cancels ?w) \<longleftrightarrow>
            h \<in> set (made key ?w) \<and> subs ?w key \<noteq> Some (Some h) \<and>
            (\<forall>j < length hs. pending_of (?cs ! j) \<noteq> Some h)"
    using inv by (simp add: serialized_def same P)
  have before: "handlers key w = []"
    using inv inst was by (simp add: serialized_def)
  have "set (made key ?w) \<subseteq> set hs" using inv by (simp add: serialized_def same)
  moreover have "handlers key ?w =
        (case subs ?w key of
           Some (Some s) \<Rightarrow> if (\<exists>j < length hs. starting (?cs ! j)) then [] else [s]
         | _ \<Rightarrow> [])"
    using ES before inst by (simp add: same)
  moreover have "mx ?w \<longleftrightarrow> (\<exists>j < length hs. holds (?cs ! j))"
    unfolding EH using inv by (simp add: serialized_def)
  moreover have "length ?cs = length hs" using len by simp
  moreover have "\<forall>s'. subs ?w key = Some (Some s') \<longrightarrow> s' \<in> set (made key ?w)"
    using inst smade by (simp add: same)
  ultimately show ?thesis
    using X L C unfolding serialized_def by blast
qed


lemma local_at:
  "serialized key hs w cs \<Longrightarrow> i < length hs \<Longrightarrow> local_ok w key (hs ! i) (cs ! i)"
  by (simp add: serialized_def)

lemma caller_step_serialized:
  assumes inv: "serialized key hs w cs" and d: "distinct hs" and i: "i < length hs"
  shows "caller_step w key (Inr (hs ! i)) (cs ! i) = Blocks \<or>
         (\<exists>c w'. caller_step w key (Inr (hs ! i)) (cs ! i) = Returns (c, w') \<and>
                 serialized key hs w' (cs[i := c]))"
proof (cases "cs ! i")
  case Line110
  show ?thesis
  proof (cases "mx w")
    case True
    then show ?thesis using Line110 by (simp add: mx_Lock_def)
  next
    case False
    have "serialized key hs (w\<lparr>mx := True\<rparr>) (cs[i := Line112])"
      using local_at [OF inv i] Line110 by (intro lock_step [OF inv i False]) simp_all
    then show ?thesis using Line110 False by (simp add: mx_Lock_def)
  qed
next
  case Line112
  let ?sub = "case subs w key of None \<Rightarrow> None | Some s \<Rightarrow> s"
  have "serialized key hs w (cs[i := Line113 ?sub])"
    using local_at [OF inv i] Line112
    by (intro move_only [OF inv i]) (auto simp: active_def split: option.splits)
  then show ?thesis using Line112 by simp
next
  case (Line113 sub)
  have "mx w \<and> serialized key hs (w\<lparr>mx := False\<rparr>) (cs[i := Line115 sub])"
    using local_at [OF inv i] Line113 by (intro unlock_step [OF inv i]) simp_all
  then show ?thesis using Line113 by (simp add: mx_Unlock_def)
next
  case (Line115 sub)
  have "serialized key hs w (cs[i := if sub \<noteq> None then Returned None else Line123])"
    using local_at [OF inv i] Line115 by (intro move_only [OF inv i]) auto
  then show ?thesis using Line115 by simp
next
  case Line123
  have "serialized key hs (emit (Call_RegisterTopicValidator key) w) cs"
    by (rule serialized_cong [OF inv]) simp_all
  then have "serialized key hs (emit (Call_RegisterTopicValidator key) w) (cs[i := Line127])"
    using local_at [OF inv i] Line123
      local_ok_cong [of "emit (Call_RegisterTopicValidator key) w" w key "hs ! i" Line127]
    by (intro move_only) (simp_all add: i)
  then show ?thesis using Line123 by simp
next
  case Line127
  then show ?thesis using make_step [OF inv d i] by simp
next
  case (Line129 err)
  then show ?thesis using local_at [OF inv i] by simp
next
  case (Line130 err)
  then show ?thesis using local_at [OF inv i] by simp
next
  case (Line133 sub)
  show ?thesis
  proof (cases "mx w")
    case True
    then show ?thesis using Line133 by (simp add: mx_Lock_def)
  next
    case False
    have "serialized key hs (w\<lparr>mx := True\<rparr>) (cs[i := Line134 sub])"
      using local_at [OF inv i] Line133 by (intro lock_step [OF inv i False]) simp_all
    then show ?thesis using Line133 False by (simp add: mx_Lock_def)
  qed
next
  case (Line134 sub)
  let ?c = "if (case subs w key of None \<Rightarrow> None | Some s \<Rightarrow> s) \<noteq> None
            then Line136 sub else Line141 sub (subs w key \<noteq> None)"
  have "serialized key hs w (cs[i := ?c])"
    using local_at [OF inv i] Line134
    by (intro move_only [OF inv i]) (auto simp: active_def split: option.splits)
  then show ?thesis using Line134 by (auto simp: Let_def split: if_splits)
next
  case (Line136 sub)
  have "mx w \<and> serialized key hs (w\<lparr>mx := False\<rparr>) (cs[i := Line137 sub])"
    using local_at [OF inv i] Line136 by (intro unlock_step [OF inv i]) simp_all
  then show ?thesis using Line136 by (simp add: mx_Unlock_def)
next
  case (Line137 sub)
  then show ?thesis using cancel_step [OF inv d i Line137] by (simp add: sub_Cancel_def)
next
  case (Line141 sub b)
  then show ?thesis using write_step [OF inv d i Line141] by simp
next
  case (Line142 sub b)
  then show ?thesis using go_step [OF inv i Line142] by (simp add: Let_def)
next
  case (Line144 sub b cancel)
  have "mx w \<and> serialized key hs (w\<lparr>mx := False\<rparr>) (cs[i := Line148 sub b cancel])"
    using local_at [OF inv i] Line144 by (intro unlock_step [OF inv i]) simp_all
  then show ?thesis using Line144 by (simp add: mx_Unlock_def)
next
  case (Line148 sub b cancel)
  let ?w = "if \<not> b then emit (Go_bootstrapPubsub (WithCancel cancel (ctx w)) key) w else w"
  have "serialized key hs ?w cs"
    by (rule serialized_cong [OF inv]) simp_all
  moreover have "local_ok ?w key (hs ! i) (Returned None)"
    using local_at [OF inv i] Line148 by (simp add: active_def)
  ultimately have "serialized key hs ?w (cs[i := Returned None])"
    using Line148 by (intro move_only) (simp_all add: i)
  then show ?thesis using Line148 by simp
next
  case (Returned err)
  then have "cs[i := Returned err] = cs" by (metis list_update_id)
  then show ?thesis using inv Returned by simp
qed


lemma interleave_serialized:
  "distinct hs \<Longrightarrow> serialized key hs w cs \<Longrightarrow>
   \<exists>cs' w'. interleave w key (map Inr hs) cs sched = Returns (cs', w') \<and>
            serialized key hs w' cs'"
proof (induction sched arbitrary: w cs)
  case Nil
  then show ?case by simp
next
  case (Cons i sched)
  have len: "length cs = length hs" using Cons.prems(2) by (simp add: serialized_def)
  show ?case
  proof (cases "i < length hs")
    case True
    consider "caller_step w key (Inr (hs ! i)) (cs ! i) = Blocks"
      | c w1 where "caller_step w key (Inr (hs ! i)) (cs ! i) = Returns (c, w1)"
          "serialized key hs w1 (cs[i := c])"
      using caller_step_serialized [OF Cons.prems(2) Cons.prems(1) True] by blast
    then show ?thesis
    proof cases
      case 1
      then show ?thesis using Cons.IH [OF Cons.prems] True len by simp
    next
      case 2
      then show ?thesis using Cons.IH [OF Cons.prems(1) 2(2)] True len by simp
    qed
  next
    case False
    then show ?thesis using Cons.IH [OF Cons.prems] len by simp
  qed
qed

lemma serialized_start:
  assumes "\<not> mx w" and "subs w key = None \<or> subs w key = Some None"
    and "handlers key w = []" and "made key w = []" and "cancels w = []"
  shows "serialized key hs w (replicate (length hs) Line110)"
  using assms by (auto simp: serialized_def)

lemma one_goroutine_when_transport_succeeds:
  assumes d: "distinct hs" and "\<not> mx w" and "subs w key = None \<or> subs w key = Some None"
    and "handlers key w = []" and "made key w = []" and "cancels w = []"
  shows "\<exists>cs' w'. interleave w key (map Inr hs) (replicate (length hs) Line110) sched
                    = Returns (cs', w') \<and>
           length (handlers key w') \<le> 1 \<and>
           (hs \<noteq> [] \<and> list_all is_returned cs' \<longrightarrow>
              (\<exists>i < length hs.
                 subs w' key = Some (Some (hs ! i)) \<and>
                 handlers key w' = [hs ! i] \<and>
                 set (cancels w') = set (made key w') - {hs ! i} \<and>
                 cs' = replicate (length hs) (Returned None)))"
proof -
  obtain cs' w' where run:
    "interleave w key (map Inr hs) (replicate (length hs) Line110) sched = Returns (cs', w')"
    and inv: "serialized key hs w' cs'"
    using interleave_serialized [OF d serialized_start [OF assms(2-6)]] by blast
  have len: "length cs' = length hs" using inv by (simp add: serialized_def)
  have atmost: "length (handlers key w') \<le> 1"
    using inv by (auto simp: serialized_def split: option.splits)
  have fin: "\<exists>i < length hs.
                 subs w' key = Some (Some (hs ! i)) \<and>
                 handlers key w' = [hs ! i] \<and>
                 set (cancels w') = set (made key w') - {hs ! i} \<and>
                 cs' = replicate (length hs) (Returned None)"
    if ne: "hs \<noteq> []" and all: "list_all is_returned cs'"
  proof -
    have each: "cs' ! j = Returned None \<and> active w' key" if j: "j < length hs" for j
    proof -
      have "is_returned (cs' ! j)" using all j len by (simp add: list_all_length)
      then obtain err where "cs' ! j = Returned err" by (cases "cs' ! j") auto
      then show ?thesis using local_at [OF inv j] by simp
    qed
    have "0 < length hs" using ne by simp
    then have "active w' key" using each by blast
    then obtain s where s: "subs w' key = Some (Some s)"
      by (cases "subs w' key") (auto simp: active_def split: option.splits)
    have smade: "s \<in> set (made key w')" using inv s by (simp add: serialized_def)
    then have "s \<in> set hs" using inv by (auto simp: serialized_def)
    then obtain i where i: "i < length hs" "hs ! i = s" by (auto simp: in_set_conv_nth)
    have allret: "cs' = replicate (length hs) (Returned None)"
      using each len by (simp add: list_eq_iff_nth_eq)
    have quiet: "pending_of (cs' ! j) = None" "\<not> starting (cs' ! j)" if "j < length hs" for j
      using each [OF that] by simp_all
    have "handlers key w' = [s]"
      using inv s quiet by (simp add: serialized_def)
    moreover have "set (cancels w') = set (made key w') - {s}"
      using inv s quiet by (auto simp: serialized_def)
    ultimately show ?thesis using i s allret by blast
  qed
  from run atmost fin show ?thesis by blast
qed


lemma holder_runs:
  "holds c \<Longrightarrow> mx w \<Longrightarrow> caller_step w key subscribed c \<noteq> Blocks \<and> \<not> is_returned c"
  by (cases c) (simp_all add: mx_Unlock_def Let_def)

lemma free_mutex_runs:
  "\<not> mx w \<Longrightarrow> caller_step w key subscribed c \<noteq> Blocks"
  by (cases c) (simp_all add: mx_Lock_def mx_Unlock_def sub_Cancel_def Let_def)

lemma some_caller_can_run:
  assumes inv: "serialized key hs w cs" and unfinished: "\<not> list_all is_returned cs"
  shows "\<exists>i < length hs. \<not> is_returned (cs ! i) \<and>
           caller_step w key (Inr (hs ! i)) (cs ! i) \<noteq> Blocks"
proof (cases "mx w")
  case True
  then obtain i where "i < length hs" "holds (cs ! i)"
    using inv by (auto simp: serialized_def)
  then show ?thesis using holder_runs [of "cs ! i" w key] True by blast
next
  case False
  have len: "length cs = length hs" using inv by (simp add: serialized_def)
  obtain j where "j < length hs" "\<not> is_returned (cs ! j)"
    using unfinished len by (auto simp: list_all_length)
  then show ?thesis using free_mutex_runs [OF False] by blast
qed

end
